theory Spec2Isabelle
  imports Main
begin

section \<open>Data model\<close>

text \<open>
  The repository's only source file is the test driver \<^verbatim>\<open>src/main.cpp\<close>. It uses the
  connection manager (\<^verbatim>\<open>connection_manager.h\<close>), the connection class
  (\<^verbatim>\<open>connection.h\<close>) and the WebSocket client (\<^verbatim>\<open>client.h\<close>), whose implementations
  are not among the sources. The driver and its callbacks are embedded from the source,
  for every manager and every client that offer the calls they make; the operations of
  the manager are modelled from the specification where a statement is about them.
\<close>

type_synonym conn_ptr = nat
  \<comment> \<open>\<^verbatim>\<open>Client::Connection::Ptr\<close>: identifies one connection object\<close>

type_synonym connection_hdl = nat
  \<comment> \<open>the transport handle returned by \<^verbatim>\<open>getConnectionHandle()\<close>\<close>

text \<open>
  Modelled from the spec: the connection states (\<^verbatim>\<open>Client::Connection_State_Values\<close> is
  declared in \<^verbatim>\<open>connection.h\<close>; the driver names only \<^verbatim>\<open>open\<close>). Section 3 gives the
  states Connecting, Open, Failed and Closed.
\<close>

datatype connection_state = Connecting | Open | Failed | Closed

datatype frame_opcode = Text | Binary
  \<comment> \<open>\<^verbatim>\<open>Client::Frame_Opcode_Values\<close>; the driver uses \<^verbatim>\<open>text\<close>\<close>

text \<open>
  Modelled from the spec: the errors of section 7 (the exception classes are declared
  outside the sources). \<open>client_error\<close> is \<^verbatim>\<open>Client::client_error\<close>, the base class the
  driver catches.
\<close>

datatype connection_error = NotFound | AlreadyOpen | NotOpen | PreconditionViolated

datatype client_error = ConfigError | ConnectionError connection_error

text \<open>
  The two closures the driver registers on every connection (main.cpp, lines 47-71).
  \<open>OnOpen_c\<close> captures the driver's \<^verbatim>\<open>messages\<close> (by reference; the driver never
  changes the list, so the closure carries its value); \<open>OnFail_c\<close> only logs.
\<close>

datatype event_callback = OnFail_c | OnOpen_c "string list"

text \<open>
  Modelled from the spec: a connection object (\<^verbatim>\<open>connection.h\<close> is not among the
  sources). Section 3 gives it an id, the target URL, the state, the error reason
  ("present iff state=Failed"), the transport handle and the two callbacks.
\<close>

record connection =
  conn_id :: nat
  targetUrl :: string
  state :: connection_state
  errorReason :: "string option"
  transportHandle :: "connection_hdl option"
  onOpen :: "event_callback option"
  onFail :: "event_callback option"

section \<open>The driver's callbacks (main.cpp, lines 47-71)\<close>



text \<open>
  The library's \<^verbatim>\<open>send(hdl, payload, opcode)\<close> is not part of the repository: it is a
  parameter, a function on the library's state that returns \<open>Inl x\<close> when it throws.
\<close>

type_synonym ('cl, 'x) client_send =
  "'cl \<Rightarrow> connection_hdl option \<Rightarrow> string \<Rightarrow> frame_opcode \<Rightarrow> ('x + unit) \<times> 'cl"







text \<open>
  The state of the client after \<^verbatim>\<open>send\<close> has been called on it for each of the messages in
  turn, as text frames on the handle \<open>hdl\<close>.
\<close>

definition client_after ::
  "('cl, 'x) client_send \<Rightarrow> connection_hdl option \<Rightarrow> 'cl \<Rightarrow> string list \<Rightarrow> 'cl" where
  "client_after client_send hdl cl messages =
     foldl (\<lambda>cl' msg. snd (client_send cl' hdl msg Text)) cl messages"

section \<open>The driver (main.cpp, \<^verbatim>\<open>runTestConnection\<close>)\<close>

text \<open>
  The manager interface the driver calls. Each operation takes the manager's state and
  returns the state it leaves, with \<open>Inl e\<close> when it throws the \<^verbatim>\<open>client_error\<close> \<open>e\<close>.
  \<open>api_sleep\<close> is what the background engine does to the manager while the main thread
  is in \<^verbatim>\<open>sleep(n)\<close>. The driver is defined for every such interface.
\<close>

record 'm manager_api =
  api_configureSecureEndpoint :: "string \<Rightarrow> string \<Rightarrow> string \<Rightarrow> 'm \<Rightarrow> (client_error + unit) \<times> 'm"
  api_createConnection :: "string \<Rightarrow> 'm \<Rightarrow> (client_error + conn_ptr) \<times> 'm"
  api_setOnFailCallback :: "conn_ptr \<Rightarrow> event_callback \<Rightarrow> 'm \<Rightarrow> (client_error + unit) \<times> 'm"
  api_setOnOpenCallback :: "conn_ptr \<Rightarrow> event_callback \<Rightarrow> 'm \<Rightarrow> (client_error + unit) \<times> 'm"
  api_open :: "conn_ptr \<Rightarrow> 'm \<Rightarrow> (client_error + unit) \<times> 'm"
  api_getState :: "conn_ptr \<Rightarrow> 'm \<Rightarrow> connection_state"
  api_send :: "conn_ptr \<Rightarrow> string \<Rightarrow> 'm \<Rightarrow> (client_error + unit) \<times> 'm"
  api_closeAllConnections :: "'m \<Rightarrow> (client_error + unit) \<times> 'm"
  api_sleep :: "nat \<Rightarrow> 'm \<Rightarrow> 'm"

text \<open>
  The calls the driver makes, in the order it makes them. \<open>CallGetState\<close> records the
  state that was read.
\<close>

datatype call =
    CallConfigure string string string
  | CallCreate string
  | CallSetOnFail conn_ptr event_callback
  | CallSetOnOpen conn_ptr event_callback
  | CallOpen conn_ptr
  | CallSleep nat
  | CallGetState conn_ptr connection_state
  | CallSend conn_ptr string
  | CallCloseAll

text \<open>
  The driver's state: the manager (the global \<^verbatim>\<open>Client::CONNECTION_MANAGER\<close>), the local
  vector \<^verbatim>\<open>connections\<close>, and the history of the calls made so far. The program keeps
  no such history; it is recorded here so that the order of the calls can be stated.
\<close>

record 'm driver =
  mgr :: 'm
  connections :: "conn_ptr list"
  calls :: "call list"

definition called :: "call \<Rightarrow> 'm \<Rightarrow> 'm driver \<Rightarrow> 'm driver" where
  "called c m s = s\<lparr>mgr := m, calls := calls s @ [c]\<rparr>"

text \<open>
  One iteration of the first loop (lines 42-84): the body of the \<^verbatim>\<open>try\<close> block. The
  first \<^verbatim>\<open>client_error\<close> thrown leaves the block.
\<close>

definition connectOne ::
  "'m manager_api \<Rightarrow> string \<Rightarrow> string list \<Rightarrow> 'm driver \<Rightarrow> (client_error + unit) \<times> 'm driver" where
  "connectOne api url messages s =
     (case api_createConnection api url (mgr s) of
        (Inl e, m1) \<Rightarrow> (Inl e, called (CallCreate url) m1 s)
      | (Inr c_p, m1) \<Rightarrow>
          (let s1 = called (CallCreate url) m1 s
           in case api_setOnFailCallback api c_p OnFail_c (mgr s1) of
                (Inl e, m2) \<Rightarrow> (Inl e, called (CallSetOnFail c_p OnFail_c) m2 s1)
              | (Inr _, m2) \<Rightarrow>
                  (let s2 = called (CallSetOnFail c_p OnFail_c) m2 s1
                   in case api_setOnOpenCallback api c_p (OnOpen_c messages) (mgr s2) of
                        (Inl e, m3) \<Rightarrow> (Inl e, called (CallSetOnOpen c_p (OnOpen_c messages)) m3 s2)
                      | (Inr _, m3) \<Rightarrow>
                          (let s3 = called (CallSetOnOpen c_p (OnOpen_c messages)) m3 s2
                           in case api_open api c_p (mgr s3) of
                                (Inl e, m4) \<Rightarrow> (Inl e, called (CallOpen c_p) m4 s3)
                              | (Inr _, m4) \<Rightarrow>
                                  (let s4 = called (CallOpen c_p) m4 s3
                                   in (Inr (), s4\<lparr>connections := connections s4 @ [c_p]\<rparr>))))))"

text \<open>
  The loop \<^verbatim>\<open>for (auto i = 0; i < num_connections; i++)\<close> with its \<^verbatim>\<open>catch\<close>: a
  \<^verbatim>\<open>client_error\<close> ends the loop. The counter is a C++ \<^verbatim>\<open>int\<close>; it stays below
  \<^verbatim>\<open>num_connections\<close>, so \<^verbatim>\<open>i++\<close> never overflows.
\<close>

function connectLoop ::
  "'m manager_api \<Rightarrow> string \<Rightarrow> string list \<Rightarrow> int \<Rightarrow> int \<Rightarrow> 'm driver
     \<Rightarrow> (client_error + unit) \<times> 'm driver" where
  "connectLoop api url messages i num_connections s =
     (if i < num_connections
      then (case connectOne api url messages s of
              (Inl e, s') \<Rightarrow> (Inl e, s')
            | (Inr _, s') \<Rightarrow> connectLoop api url messages (i + 1) num_connections s')
      else (Inr (), s))"
  by pat_completeness auto
termination
  by (relation "measure (\<lambda>(api, url, messages, i, num_connections, s). nat (num_connections - i))")
     auto

text \<open>\<^verbatim>\<open>std::to_string\<close> on an \<^verbatim>\<open>int\<close>: the decimal digits, with a sign.\<close>

definition digit_char :: "nat \<Rightarrow> char" where
  "digit_char d = ''0123456789'' ! d"

function to_string_nat :: "nat \<Rightarrow> string" where
  "to_string_nat n =
     (if n < 10 then [digit_char n] else to_string_nat (n div 10) @ [digit_char (n mod 10)])"
  by pat_completeness auto
termination
  by (relation "measure id") auto

definition to_string :: "int \<Rightarrow> string" where
  "to_string i = (if i < 0 then CHR ''-'' # to_string_nat (nat (- i)) else to_string_nat (nat i))"

text \<open>
  The second loop (lines 96-108), over the stored connections. A connection whose state
  is not \<^verbatim>\<open>open\<close> is skipped (the log line of that branch reads the state once more); a
  \<^verbatim>\<open>client_error\<close> of \<^verbatim>\<open>send\<close> leaves the loop.
\<close>

fun sendLoop ::
  "'m manager_api \<Rightarrow> conn_ptr list \<Rightarrow> int \<Rightarrow> 'm driver \<Rightarrow> (client_error + unit) \<times> 'm driver" where
  "sendLoop api [] connection_idx s = (Inr (), s)"
| "sendLoop api (c_p # rest) connection_idx s =
     (let idx = connection_idx + 1;
          sync_message = ''### Message (SYNC) for connection '' @ to_string idx;
          st = api_getState api c_p (mgr s);
          s1 = called (CallGetState c_p st) (mgr s) s
      in if st = Open
         then (case api_send api c_p sync_message (mgr s1) of
                 (Inl e, m') \<Rightarrow> (Inl e, called (CallSend c_p sync_message) m' s1)
               | (Inr _, m') \<Rightarrow> sendLoop api rest idx (called (CallSend c_p sync_message) m' s1))
         else sendLoop api rest idx s1)"

text \<open>\<^verbatim>\<open>sleep(secs)\<close>: the main thread waits while the engine works on the manager.\<close>

definition sleep :: "'m manager_api \<Rightarrow> nat \<Rightarrow> 'm driver \<Rightarrow> 'm driver" where
  "sleep api secs s = called (CallSleep secs) (api_sleep api secs (mgr s)) s"

text \<open>The driver after the call of \<^verbatim>\<open>configureSecureEndpoint\<close> (lines 34-39).\<close>

definition configured :: "string \<Rightarrow> string \<Rightarrow> string \<Rightarrow> 'm \<Rightarrow> 'm driver" where
  "configured ca_crt_path client_crt_path client_key_path m =
     \<lparr>mgr = m, connections = [],
      calls = [CallConfigure ca_crt_path client_crt_path client_key_path]\<rparr>"

text \<open>
  \<^verbatim>\<open>runTestConnection\<close>. \<^verbatim>\<open>configureSecureEndpoint\<close> is called outside every \<^verbatim>\<open>try\<close>
  block, so its exception leaves the function (\<open>Inl\<close>); otherwise the function returns 0
  or 1. The unused local \<^verbatim>\<open>Connection c { url }\<close> (line 37) and the log lines do not
  touch the manager and are left out.
\<close>

definition runTestConnection ::
  "'m manager_api \<Rightarrow> string \<Rightarrow> int \<Rightarrow> string list \<Rightarrow> string \<Rightarrow> string \<Rightarrow> string \<Rightarrow> 'm
     \<Rightarrow> (client_error + int) \<times> 'm driver" where
  "runTestConnection api url num_connections messages ca_crt_path client_crt_path client_key_path m0 =
     (case api_configureSecureEndpoint api ca_crt_path client_crt_path client_key_path m0 of
        (Inl e, m1) \<Rightarrow> (Inl e, configured ca_crt_path client_crt_path client_key_path m1)
      | (Inr _, m1) \<Rightarrow>
          (case connectLoop api url messages 0 num_connections
                  (configured ca_crt_path client_crt_path client_key_path m1) of
             (Inl e, s1) \<Rightarrow> (Inr 1, s1)
           | (Inr _, s1) \<Rightarrow>
               (case sendLoop api (connections s1) 0 (sleep api 4 s1) of
                  (Inl e, s2) \<Rightarrow> (Inr 1, s2)
                | (Inr _, s2) \<Rightarrow>
                    (let s3 = sleep api 6 (sleep api 4 s2)
                     in case api_closeAllConnections api (mgr s3) of
                          (Inl e, m4) \<Rightarrow> (Inr 1, called CallCloseAll m4 s3)
                        | (Inr _, m4) \<Rightarrow> (Inr 0, called CallCloseAll m4 s3)))))"

section \<open>Example managers and clients\<close>

text \<open>
  A manager in which every handshake takes \<open>delay\<close> seconds of waiting: it numbers its
  connections from 0, accepts every call, and reports a connection as Open once the main
  thread has slept \<open>delay\<close> seconds in all, and as Connecting before.
\<close>

record slow_manager =
  created :: nat
  elapsed :: nat

definition slow_api :: "nat \<Rightarrow> slow_manager manager_api" where
  "slow_api delay =
     \<lparr>api_configureSecureEndpoint = (\<lambda>ca cert key m. (Inr (), m)),
      api_createConnection = (\<lambda>url m. (Inr (created m), m\<lparr>created := Suc (created m)\<rparr>)),
      api_setOnFailCallback = (\<lambda>c cb m. (Inr (), m)),
      api_setOnOpenCallback = (\<lambda>c cb m. (Inr (), m)),
      api_open = (\<lambda>c m. (Inr (), m)),
      api_getState = (\<lambda>c m. if delay \<le> elapsed m then Open else Connecting),
      api_send = (\<lambda>c payload m. (Inr (), m)),
      api_closeAllConnections = (\<lambda>m. (Inr (), m)),
      api_sleep = (\<lambda>secs m. m\<lparr>elapsed := elapsed m + secs\<rparr>)\<rparr>"

definition fresh_manager :: slow_manager where
  "fresh_manager = \<lparr>created = 0, elapsed = 0\<rparr>"

text \<open>The same manager, except that \<^verbatim>\<open>open\<close> throws for the second connection.\<close>

definition refusing_api :: "slow_manager manager_api" where
  "refusing_api =
     (slow_api 3)
       \<lparr>api_open :=
          (\<lambda>c m. if c = 1 then (Inl (ConnectionError PreconditionViolated), m) else (Inr (), m))\<rparr>"

text \<open>The manager whose handshakes take 3 seconds, except that every \<^verbatim>\<open>send\<close> throws.\<close>

definition unsendable_api :: "slow_manager manager_api" where
  "unsendable_api =
     (slow_api 3)\<lparr>api_send := (\<lambda>c payload m. (Inl (ConnectionError NotOpen), m))\<rparr>"



text \<open>A connection object as it is after its creation.\<close>

definition created_connection :: connection where
  "created_connection =
     \<lparr>conn_id = 0, targetUrl = ''wss://localhost:8090/cthun/'', state = Connecting,
      errorReason = None, transportHandle = None, onOpen = None, onFail = None\<rparr>"


section \<open>Properties of call histories\<close>

text \<open>The calls of one complete iteration of the first loop, for the connection \<open>c\<close>.\<close>

definition iteration_calls :: "string \<Rightarrow> string list \<Rightarrow> conn_ptr \<Rightarrow> call list" where
  "iteration_calls url messages c =
     [CallCreate url, CallSetOnFail c OnFail_c, CallSetOnOpen c (OnOpen_c messages), CallOpen c]"

text \<open>The calls of an iteration that a \<^verbatim>\<open>client_error\<close> ended.\<close>

definition failed_iteration :: "string \<Rightarrow> string list \<Rightarrow> call list \<Rightarrow> bool" where
  "failed_iteration url messages u \<longleftrightarrow>
     (\<exists>c. u = [CallCreate url]
        \<or> u = [CallCreate url, CallSetOnFail c OnFail_c]
        \<or> u = [CallCreate url, CallSetOnFail c OnFail_c, CallSetOnOpen c (OnOpen_c messages)]
        \<or> u = iteration_calls url messages c)"

fun is_create :: "call \<Rightarrow> bool" where
  "is_create (CallCreate url) = True"
| "is_create c = False"

fun is_open :: "call \<Rightarrow> bool" where
  "is_open (CallOpen c) = True"
| "is_open c = False"

text \<open>The calls the driver makes only after the first loop: the waits, the send phase
  and the close phase.\<close>

fun after_connect_phase :: "call \<Rightarrow> bool" where
  "after_connect_phase (CallSleep n) = True"
| "after_connect_phase (CallGetState c st) = True"
| "after_connect_phase (CallSend c msg) = True"
| "after_connect_phase CallCloseAll = True"
| "after_connect_phase c = False"

text \<open>The histories of the second loop: a state is read, and a send follows only the
  answer \<open>Open\<close>.\<close>

inductive send_phase :: "call list \<Rightarrow> bool" where
  sp_nil: "send_phase []"
| sp_skip: "send_phase u \<Longrightarrow> st \<noteq> Open \<Longrightarrow> send_phase (CallGetState c st # u)"
| sp_send: "send_phase u \<Longrightarrow> send_phase (CallGetState c Open # CallSend c p # u)"

text \<open>Every send comes directly after a read of the same connection's state that
  answered \<open>Open\<close>.\<close>

definition sends_follow_open_state :: "call list \<Rightarrow> bool" where
  "sends_follow_open_state u \<longleftrightarrow>
     (\<forall>pre c p post. u = pre @ CallSend c p # post \<longrightarrow> (\<exists>pre'. pre = pre' @ [CallGetState c Open]))"

text \<open>The manager after one call of the history has been made on it.\<close>

fun apply_call :: "'m manager_api \<Rightarrow> call \<Rightarrow> 'm \<Rightarrow> 'm" where
  "apply_call api (CallConfigure ca cert key) m = snd (api_configureSecureEndpoint api ca cert key m)"
| "apply_call api (CallCreate url) m = snd (api_createConnection api url m)"
| "apply_call api (CallSetOnFail c cb) m = snd (api_setOnFailCallback api c cb m)"
| "apply_call api (CallSetOnOpen c cb) m = snd (api_setOnOpenCallback api c cb m)"
| "apply_call api (CallOpen c) m = snd (api_open api c m)"
| "apply_call api (CallSleep secs) m = api_sleep api secs m"
| "apply_call api (CallGetState c st) m = m"
| "apply_call api (CallSend c msg) m = snd (api_send api c msg m)"
| "apply_call api CallCloseAll m = snd (api_closeAllConnections api m)"

text \<open>The manager after the calls of a history have been made on it, in their order.\<close>

definition replay :: "'m manager_api \<Rightarrow> call list \<Rightarrow> 'm \<Rightarrow> 'm" where
  "replay api t m = foldl (\<lambda>m' c. apply_call api c m') m t"

text \<open>
  Every \<^verbatim>\<open>open\<close> in the history \<open>t\<close> of a run that started with the manager \<open>m0\<close> comes
  directly after the creation of its connection and the registration of the driver's two
  closures on it, none of which threw, and finds the manager as the second registration
  left it.
\<close>

definition opens_after_registrations ::
  "'m manager_api \<Rightarrow> string \<Rightarrow> string list \<Rightarrow> 'm \<Rightarrow> call list \<Rightarrow> bool" where
  "opens_after_registrations api url messages m0 t \<longleftrightarrow>
     (\<forall>pre c post. t = pre @ CallOpen c # post \<longrightarrow>
        (\<exists>pre' m1 m2 m3.
           pre = pre' @ [CallCreate url, CallSetOnFail c OnFail_c, CallSetOnOpen c (OnOpen_c messages)]
           \<and> api_createConnection api url (replay api pre' m0) = (Inr c, m1)
           \<and> api_setOnFailCallback api c OnFail_c m1 = (Inr (), m2)
           \<and> api_setOnOpenCallback api c (OnOpen_c messages) m2 = (Inr (), m3)
           \<and> replay api pre m0 = m3))"

text \<open>The connections whose state a history reads, in the order of the reads.\<close>

fun reads_of :: "call list \<Rightarrow> conn_ptr list" where
  "reads_of [] = []"
| "reads_of (CallGetState c st # t) = c # reads_of t"
| "reads_of (x # t) = reads_of t"

text \<open>
  Every state a history records as read is the state the manager reports at that moment,
  that is after the earlier calls of the history, made on the manager \<open>m\<close>.
\<close>

definition reads_current :: "'m manager_api \<Rightarrow> 'm \<Rightarrow> call list \<Rightarrow> bool" where
  "reads_current api m t \<longleftrightarrow>
     (\<forall>pre c st post. t = pre @ CallGetState c st # post \<longrightarrow>
        st = api_getState api c (replay api pre m))"

text \<open>A read that answers \<open>Open\<close> is directly followed by a send on the same connection.\<close>

definition open_reads_send :: "call list \<Rightarrow> bool" where
  "open_reads_send t \<longleftrightarrow>
     (\<forall>pre c post. t = pre @ CallGetState c Open # post \<longrightarrow>
        (\<exists>p post'. post = CallSend c p # post'))"

text \<open>
  A send that throws is the last call of the history: when the call of \<^verbatim>\<open>send\<close> a
  history records throws on the manager as the earlier calls left it, no call follows.
\<close>

definition throw_ends :: "'m manager_api \<Rightarrow> 'm \<Rightarrow> call list \<Rightarrow> bool" where
  "throw_ends api m t \<longleftrightarrow>
     (\<forall>pre c p post e. t = pre @ CallSend c p # post
         \<and> fst (api_send api c p (replay api pre m)) = Inl e \<longrightarrow> post = [])"

section \<open>Operations of the connection manager, from the specification\<close>

text \<open>
  Modelled from the spec: the transport engine as the manager uses it (an external
  collaborator; section 6 gives \<^verbatim>\<open>sendFrame(handle, payload, opcode=text)\<close> and
  \<^verbatim>\<open>closeHandshake(handle, onComplete)\<close>). The engine is the list of requests it has
  accepted and the handles whose handshake has completed and that are not closed.
\<close>

datatype transport_op =
    SendFrame connection_hdl string frame_opcode
  | CloseHandshake connection_hdl

datatype transport_error = InvalidHandle
  \<comment> \<open>what the engine throws for a handle that is invalid or closed\<close>

record transport_engine =
  live :: "connection_hdl list"
  requests :: "transport_op list"

text \<open>
  Modelled from the spec: \<^verbatim>\<open>sendFrame\<close> (section 6) is a "sync enqueue; fails if handle
  invalid/closed".
\<close>

definition sendFrame :: "(transport_engine, transport_error) client_send" where
  "sendFrame e hdl payload opcode =
     (case hdl of
        None \<Rightarrow> (Inl InvalidHandle, e)
      | Some h \<Rightarrow>
          if h \<in> set (live e)
          then (Inr (), e\<lparr>requests := requests e @ [SendFrame h payload opcode]\<rparr>)
          else (Inl InvalidHandle, e))"

text \<open>
  Modelled from the spec: \<^verbatim>\<open>closeHandshake\<close> (section 6). The manager waits for its
  completion, so the handle is closed when the call is over.
\<close>

definition closeHandshake :: "connection_hdl \<Rightarrow> transport_engine \<Rightarrow> transport_engine" where
  "closeHandshake h e =
     e\<lparr>live := removeAll h (live e), requests := requests e @ [CloseHandshake h]\<rparr>"

text \<open>
  Modelled from the spec: the state of \<^verbatim>\<open>Client::CONNECTION_MANAGER\<close>
  (\<^verbatim>\<open>connection_manager.h\<close> is not among the sources), as far as the operations below
  use it. Section 3 gives it the registry; the connection objects are kept in a store of
  their own (\<open>objects\<close>), since the driver holds \<^verbatim>\<open>Connection::Ptr\<close> values that outlive
  the registry entry, and \<open>transport\<close> is the engine the manager drives.
\<close>

record manager =
  objects :: "conn_ptr \<Rightarrow> connection option"
  registry :: "conn_ptr list"
  transport :: transport_engine

text \<open>
  Modelled from the spec: \<^verbatim>\<open>setOnOpenCallback\<close>, a method of the connection (section
  4.2), registers "exactly one handler of each kind; re-registering replaces the previous
  handler".
\<close>

definition setOnOpenCallback :: "event_callback \<Rightarrow> connection \<Rightarrow> connection" where
  "setOnOpenCallback cb conn = conn\<lparr>onOpen := Some cb\<rparr>"

text \<open>
  Modelled from the spec: \<^verbatim>\<open>setOnFailCallback\<close> (section 4.2), as \<^verbatim>\<open>setOnOpenCallback\<close>
  for the other kind of handler.
\<close>

definition setOnFailCallback :: "event_callback \<Rightarrow> connection \<Rightarrow> connection" where
  "setOnFailCallback cb conn = conn\<lparr>onFail := Some cb\<rparr>"

text \<open>
  Modelled from the spec: \<^verbatim>\<open>send\<close> (section 4.3) is a "synchronous request to transmit
  payload as a text frame on the connection's transport handle. Precondition:
  connection.state == Open. If not open, fails with ConnectionError(NotOpen)". The check
  is the manager's own, made on every call. The specification does not say what the
  manager reports when the engine refuses the frame of an open connection; the model
  reports \<open>NotOpen\<close> there as well.
\<close>

definition send :: "conn_ptr \<Rightarrow> string \<Rightarrow> manager \<Rightarrow> (client_error + unit) \<times> manager" where
  "send c payload m =
     (case objects m c of
        None \<Rightarrow> (Inl (ConnectionError NotFound), m)
      | Some conn \<Rightarrow>
          if state conn \<noteq> Open then (Inl (ConnectionError NotOpen), m)
          else (case sendFrame (transport m) (transportHandle conn) payload Text of
                  (Inl e, tr) \<Rightarrow> (Inl (ConnectionError NotOpen), m\<lparr>transport := tr\<rparr>)
                | (Inr _, tr) \<Rightarrow> (Inr (), m\<lparr>transport := tr\<rparr>)))"

text \<open>
  Modelled from the spec: \<^verbatim>\<open>markClosed\<close> (section 4.2) "sets state=Closed, invalidates
  handle, idempotent (invoking twice is a no-op, not an error)". Failed is terminal, so
  the transition acts on a connection that is Connecting or Open.
\<close>

definition markClosed :: "conn_ptr \<Rightarrow> manager \<Rightarrow> manager" where
  "markClosed c m =
     (case objects m c of
        None \<Rightarrow> m
      | Some conn \<Rightarrow>
          if state conn = Connecting \<or> state conn = Open
          then m\<lparr>objects := (objects m)(c \<mapsto> conn\<lparr>state := Closed, transportHandle := None\<rparr>)\<rparr>
          else m)"

text \<open>
  Modelled from the spec: what \<^verbatim>\<open>closeAllConnections\<close> (section 4.3) does with one
  connection of the registry: it "issues a close request to the Transport Engine for
  every connection whose state is Connecting or Open, waits for each underlying transport
  to finish its close handshake (bounded by a manager-wide shutdown deadline), marks each
  Closed". A connection that was never opened has no transport to close.
\<close>

definition closeConnection :: "conn_ptr \<Rightarrow> manager \<Rightarrow> manager" where
  "closeConnection c m =
     (case objects m c of
        None \<Rightarrow> m
      | Some conn \<Rightarrow>
          if state conn = Connecting \<or> state conn = Open
          then (case transportHandle conn of
                  None \<Rightarrow> markClosed c m
                | Some h \<Rightarrow> markClosed c (m\<lparr>transport := closeHandshake h (transport m)\<rparr>))
          else m)"

text \<open>
  Modelled from the spec: \<^verbatim>\<open>closeAllConnections\<close> (section 4.3) "iterates the registry
  under lock, ..., then clears the registry". It "swallows individual close errors" and
  returns \<^verbatim>\<open>void\<close>.
\<close>

definition closeAllConnections :: "manager \<Rightarrow> (client_error + unit) \<times> manager" where
  "closeAllConnections m =
     (Inr (), (foldl (\<lambda>m' c. closeConnection c m') m (registry m))\<lparr>registry := []\<rparr>)"

text \<open>A manager without connections.\<close>

definition empty_manager :: manager where
  "empty_manager =
     \<lparr>objects = (\<lambda>c. None), registry = [], transport = \<lparr>live = [], requests = []\<rparr>\<rparr>"

text \<open>A manager with one connection whose handshake has failed.\<close>

definition refused_manager :: manager where
  "refused_manager =
     \<lparr>objects = (\<lambda>c. None)
        (0 \<mapsto> \<lparr>conn_id = 0, targetUrl = ''wss://localhost:8090/cthun/'', state = Failed,
                errorReason = Some ''connection refused'', transportHandle = Some 0,
                onOpen = Some (OnOpen_c []), onFail = Some OnFail_c\<rparr>),
      registry = [0],
      transport = \<lparr>live = [], requests = []\<rparr>\<rparr>"

text \<open>A manager with two open connections.\<close>

definition two_open_manager :: manager where
  "two_open_manager =
     \<lparr>objects = (\<lambda>c. None)
        (0 \<mapsto> \<lparr>conn_id = 0, targetUrl = ''wss://localhost:8090/cthun/'', state = Open,
                errorReason = None, transportHandle = Some 0,
                onOpen = Some (OnOpen_c []), onFail = Some OnFail_c\<rparr>,
         1 \<mapsto> \<lparr>conn_id = 1, targetUrl = ''wss://localhost:8090/cthun/'', state = Open,
                errorReason = None, transportHandle = Some 1,
                onOpen = Some (OnOpen_c []), onFail = Some OnFail_c\<rparr>),
      registry = [0, 1],
      transport = \<lparr>live = [0, 1], requests = []\<rparr>\<rparr>"

section \<open>A manager that records what it opens\<close>

text \<open>
  An example manager for the driver that keeps its connection objects in a list, the
  \<^verbatim>\<open>Connection::Ptr\<close> being the index, and whose \<^verbatim>\<open>open\<close> records the object as it is at
  the moment of the call.
\<close>

record recording_manager =
  store :: "connection list"
  opened :: "connection list"

text \<open>
  Its interface: \<^verbatim>\<open>createConnection\<close> appends a new object, the two registrations are
  \<^verbatim>\<open>setOnFailCallback\<close> and \<^verbatim>\<open>setOnOpenCallback\<close> of the specification applied to the stored
  object, and \<^verbatim>\<open>open\<close> appends the object to \<open>opened\<close>. No handshake is carried out, so
  every connection stays Connecting.
\<close>

definition recording_api :: "recording_manager manager_api" where
  "recording_api =
     \<lparr>api_configureSecureEndpoint = (\<lambda>ca cert key m. (Inr (), m)),
      api_createConnection =
        (\<lambda>url m. (Inr (length (store m)),
                   m\<lparr>store := store m
                        @ [\<lparr>conn_id = length (store m), targetUrl = url, state = Connecting,
                            errorReason = None, transportHandle = None,
                            onOpen = None, onFail = None\<rparr>]\<rparr>)),
      api_setOnFailCallback =
        (\<lambda>c cb m. if c < length (store m)
                   then (Inr (), m\<lparr>store := (store m)[c := setOnFailCallback cb (store m ! c)]\<rparr>)
                   else (Inl (ConnectionError NotFound), m)),
      api_setOnOpenCallback =
        (\<lambda>c cb m. if c < length (store m)
                   then (Inr (), m\<lparr>store := (store m)[c := setOnOpenCallback cb (store m ! c)]\<rparr>)
                   else (Inl (ConnectionError NotFound), m)),
      api_open =
        (\<lambda>c m. if c < length (store m)
                then (Inr (), m\<lparr>opened := opened m @ [store m ! c]\<rparr>)
                else (Inl (ConnectionError NotFound), m)),
      api_getState = (\<lambda>c m. if c < length (store m) then state (store m ! c) else Closed),
      api_send = (\<lambda>c payload m. (Inr (), m)),
      api_closeAllConnections = (\<lambda>m. (Inr (), m)),
      api_sleep = (\<lambda>secs m. m)\<rparr>"

text \<open>The recording manager without connections.\<close>

definition empty_recording :: recording_manager where
  "empty_recording = \<lparr>store = [], opened = []\<rparr>"

text \<open>The two handlers registered on a connection object.\<close>

definition handlers :: "connection \<Rightarrow> event_callback option \<times> event_callback option" where
  "handlers conn = (onFail conn, onOpen conn)"

section \<open>The first loop\<close>

declare connectLoop.simps [simp del]

lemma connectOne_outcome:
  "(\<exists>c s'. connectOne api url messages s = (Inr (), s')
           \<and> connections s' = connections s @ [c]
           \<and> calls s' = calls s @ iteration_calls url messages c)
   \<or> (\<exists>e s' u. connectOne api url messages s = (Inl e, s')
           \<and> connections s' = connections s
           \<and> failed_iteration url messages u \<and> calls s' = calls s @ u)"
proof -
  obtain r1 m1 where c1: "api_createConnection api url (mgr s) = (r1, m1)"
    by (cases "api_createConnection api url (mgr s)") auto
  show ?thesis
  proof (cases r1)
    case (Inl e)
    with c1 show ?thesis
      by (simp add: connectOne_def called_def failed_iteration_def)
  next
    case (Inr c)
    note r1 = this
    obtain r2 m2 where c2: "api_setOnFailCallback api c OnFail_c m1 = (r2, m2)"
      by (cases "api_setOnFailCallback api c OnFail_c m1") auto
    show ?thesis
    proof (cases r2)
      case (Inl e)
      with c1 r1 c2 show ?thesis
        by (auto simp add: connectOne_def called_def failed_iteration_def)
    next
      case (Inr u2)
      note r2 = this
      obtain r3 m3 where c3: "api_setOnOpenCallback api c (OnOpen_c messages) m2 = (r3, m3)"
        by (cases "api_setOnOpenCallback api c (OnOpen_c messages) m2") auto
      show ?thesis
      proof (cases r3)
        case (Inl e)
        with c1 r1 c2 r2 c3 show ?thesis
          by (auto simp add: connectOne_def called_def failed_iteration_def)
      next
        case (Inr u3)
        note r3 = this
        obtain r4 m4 where c4: "api_open api c m3 = (r4, m4)"
          by (cases "api_open api c m3") auto
        show ?thesis
        proof (cases r4)
          case (Inl e)
          with c1 r1 c2 r2 c3 r3 c4 show ?thesis
            by (auto simp add: connectOne_def called_def failed_iteration_def iteration_calls_def)
        next
          case (Inr u4)
          with c1 r1 c2 r2 c3 r3 c4 show ?thesis
            by (simp add: connectOne_def called_def iteration_calls_def)
        qed
      qed
    qed
  qed
qed

lemma connectOne_Inr:
  assumes "connectOne api url messages s = (Inr u, s')"
  shows "\<exists>c. connections s' = connections s @ [c]
             \<and> calls s' = calls s @ iteration_calls url messages c"
  using assms connectOne_outcome[of api url messages s] by auto

lemma connectOne_Inl:
  assumes "connectOne api url messages s = (Inl e, s')"
  shows "connections s' = connections s
         \<and> (\<exists>u. failed_iteration url messages u \<and> calls s' = calls s @ u)"
  using assms connectOne_outcome[of api url messages s] by auto

lemma failed_iteration_create:
  "failed_iteration url messages u \<Longrightarrow> length (filter is_create u) = 1"
  by (auto simp: failed_iteration_def iteration_calls_def)

lemma failed_iteration_later:
  "failed_iteration url messages u \<Longrightarrow> filter after_connect_phase u = []"
  by (auto simp: failed_iteration_def iteration_calls_def)

lemma failed_iteration_open:
  "failed_iteration url messages u \<Longrightarrow> length (filter is_open u) \<le> 1"
  by (auto simp: failed_iteration_def iteration_calls_def)

lemma filter_concat_iteration_create:
  "length (filter is_create (concat (map (iteration_calls url messages) cs))) = length cs"
  by (induction cs) (auto simp: iteration_calls_def)

lemma filter_concat_iteration_open:
  "length (filter is_open (concat (map (iteration_calls url messages) cs))) = length cs"
  by (induction cs) (auto simp: iteration_calls_def)

lemma filter_concat_iteration_later:
  "filter after_connect_phase (concat (map (iteration_calls url messages) cs)) = []"
  by (induction cs) (auto simp: iteration_calls_def)

text \<open>A loop that ends without an error has run every iteration to its end.\<close>

lemma connectLoop_Inr:
  assumes "connectLoop api url messages i k s = (Inr u, s')" and "i \<le> k"
  shows "\<exists>cs. length cs = nat (k - i) \<and> connections s' = connections s @ cs
              \<and> calls s' = calls s @ concat (map (iteration_calls url messages) cs)"
  using assms
proof (induction api url messages i k s rule: connectLoop.induct)
  case (1 api url messages i k s)
  show ?case
  proof (cases "i < k")
    case False
    with "1.prems" show ?thesis
      by (simp add: connectLoop.simps[of api url messages i k s])
  next
    case True
    obtain r s1 where one: "connectOne api url messages s = (r, s1)"
      by (cases "connectOne api url messages s") auto
    show ?thesis
    proof (cases r)
      case (Inl e)
      with one True "1.prems" show ?thesis
        by (simp add: connectLoop.simps[of api url messages i k s])
    next
      case (Inr v)
      with one True "1.prems" have rest: "connectLoop api url messages (i + 1) k s1 = (Inr u, s')"
        by (simp add: connectLoop.simps[of api url messages i k s])
      from one Inr obtain c where c: "connections s1 = connections s @ [c]"
          "calls s1 = calls s @ iteration_calls url messages c"
        using connectOne_Inr by blast
      from "1.IH"[OF True _ _ rest] one Inr True
      obtain cs where cs: "length cs = nat (k - (i + 1))"
          "connections s' = connections s1 @ cs"
          "calls s' = calls s1 @ concat (map (iteration_calls url messages) cs)"
        by auto
      have "length (c # cs) = nat (k - i)" using cs(1) True by simp
      moreover have "connections s' = connections s @ (c # cs)" using c cs by simp
      moreover have "calls s' = calls s @ concat (map (iteration_calls url messages) (c # cs))"
        using c cs by simp
      ultimately show ?thesis by blast
    qed
  qed
qed

text \<open>The loop up to \<open>n\<close> continues the loop up to \<open>k\<close>.\<close>

lemma connectLoop_split:
  assumes "connectLoop api url messages i k s = (Inr u, sk)" and "i \<le> k" and "k \<le> n"
  shows "connectLoop api url messages i n s = connectLoop api url messages k n sk"
  using assms
proof (induction api url messages i k s rule: connectLoop.induct)
  case (1 api url messages i k s)
  show ?case
  proof (cases "i < k")
    case False
    with "1.prems" show ?thesis
      by (simp add: connectLoop.simps[of api url messages i k s])
  next
    case True
    obtain r s1 where one: "connectOne api url messages s = (r, s1)"
      by (cases "connectOne api url messages s") auto
    show ?thesis
    proof (cases r)
      case (Inl e)
      with one True "1.prems" show ?thesis
        by (simp add: connectLoop.simps[of api url messages i k s])
    next
      case (Inr v)
      with one True "1.prems" have rest: "connectLoop api url messages (i + 1) k s1 = (Inr u, sk)"
        by (simp add: connectLoop.simps[of api url messages i k s])
      have "connectLoop api url messages (i + 1) n s1 = connectLoop api url messages k n sk"
        using "1.IH"[OF True _ _ rest] one Inr True "1.prems" by auto
      moreover have "connectLoop api url messages i n s = connectLoop api url messages (i + 1) n s1"
        using one Inr True "1.prems"
        by (simp add: connectLoop.simps[of api url messages i n s])
      ultimately show ?thesis by simp
    qed
  qed
qed

section \<open>A thrown error ends the batch\<close>

text \<open>
  Claim C9. If a \<^verbatim>\<open>client_error\<close> is thrown while the connection of the iteration \<open>i\<close>
  (counted from 0, so \<open>i\<close> iterations have succeeded before) is created, configured or
  opened, \<^verbatim>\<open>runTestConnection\<close> returns 1 in the state that iteration left: \<open>i\<close>
  connections are stored, \<open>i + 1\<close> creations and at most \<open>i + 1\<close> opens have been
  attempted in the whole run, and no wait, no state read, no send and no
  \<^verbatim>\<open>closeAllConnections\<close> has been called. It holds for every manager interface.
\<close>

theorem client_error_stops_batch:
  assumes cfg: "api_configureSecureEndpoint api ca_crt_path client_crt_path client_key_path m0
                  = (Inr u, m1)"
    and i: "0 \<le> i" "i < num_connections"
    and before: "connectLoop api url messages 0 i
                   (configured ca_crt_path client_crt_path client_key_path m1) = (Inr v, s_i)"
    and thrown: "connectOne api url messages s_i = (Inl e, s_f)"
  shows "runTestConnection api url num_connections messages ca_crt_path client_crt_path
           client_key_path m0 = (Inr 1, s_f)
         \<and> length (connections s_f) = nat i
         \<and> length (filter is_create (calls s_f)) = nat i + 1
         \<and> length (filter is_open (calls s_f)) \<le> nat i + 1
         \<and> filter after_connect_phase (calls s_f) = []"
proof -
  let ?s0 = "configured ca_crt_path client_crt_path client_key_path m1"
  have "connectLoop api url messages 0 num_connections ?s0
          = connectLoop api url messages i num_connections s_i"
    using connectLoop_split[OF before] i by simp
  also have "\<dots> = (Inl e, s_f)"
    using thrown i by (simp add: connectLoop.simps[of api url messages i num_connections s_i])
  finally have loop: "connectLoop api url messages 0 num_connections ?s0 = (Inl e, s_f)" .
  have run: "runTestConnection api url num_connections messages ca_crt_path client_crt_path
               client_key_path m0 = (Inr 1, s_f)"
    using cfg loop by (simp add: runTestConnection_def)
  from connectLoop_Inr[OF before] i obtain cs where cs: "length cs = nat i"
      "connections s_i = connections ?s0 @ cs"
      "calls s_i = calls ?s0 @ concat (map (iteration_calls url messages) cs)"
    by auto
  from connectOne_Inl[OF thrown] obtain w where f: "connections s_f = connections s_i"
      "failed_iteration url messages w" "calls s_f = calls s_i @ w"
    by blast
  have c0: "connections ?s0 = []"
      "calls ?s0 = [CallConfigure ca_crt_path client_crt_path client_key_path]"
    by (simp_all add: configured_def)
  have "length (connections s_f) = nat i" using f cs c0 by simp
  moreover have "length (filter is_create (calls s_f)) = nat i + 1"
    using f cs c0 by (simp add: filter_concat_iteration_create failed_iteration_create)
  moreover have "length (filter is_open (calls s_f)) \<le> nat i + 1"
    using f cs c0 failed_iteration_open[OF f(2)]
    by (simp add: filter_concat_iteration_open)
  moreover have "filter after_connect_phase (calls s_f) = []"
    using f cs c0 by (simp add: filter_concat_iteration_later failed_iteration_later)
  ultimately show ?thesis using run by simp
qed

text \<open>
  A run of three connections against the manager whose \<^verbatim>\<open>open\<close> throws for the second:
  the first iteration succeeds, the second throws, the third never starts.
\<close>

theorem client_error_stops_batch_witness:
  "fst (api_configureSecureEndpoint refusing_api ''ca'' ''cert'' ''key'' fresh_manager) = Inr ()
   \<and> fst (connectLoop refusing_api ''wss://localhost:8090/cthun/'' [''hello''] 0 1
            (configured ''ca'' ''cert'' ''key''
               (snd (api_configureSecureEndpoint refusing_api ''ca'' ''cert'' ''key''
                       fresh_manager)))) = Inr ()
   \<and> fst (connectOne refusing_api ''wss://localhost:8090/cthun/'' [''hello'']
            (snd (connectLoop refusing_api ''wss://localhost:8090/cthun/'' [''hello''] 0 1
                    (configured ''ca'' ''cert'' ''key''
                       (snd (api_configureSecureEndpoint refusing_api ''ca'' ''cert'' ''key''
                               fresh_manager))))))
       = Inl (ConnectionError PreconditionViolated)
   \<and> fst (runTestConnection refusing_api ''wss://localhost:8090/cthun/'' 3 [''hello'']
            ''ca'' ''cert'' ''key'' fresh_manager) = Inr 1
   \<and> length (connections (snd (runTestConnection refusing_api ''wss://localhost:8090/cthun/'' 3
            [''hello''] ''ca'' ''cert'' ''key'' fresh_manager))) = 1
   \<and> length (filter is_create (calls (snd (runTestConnection refusing_api
            ''wss://localhost:8090/cthun/'' 3 [''hello''] ''ca'' ''cert'' ''key'' fresh_manager)))) = 2
   \<and> filter after_connect_phase (calls (snd (runTestConnection refusing_api
            ''wss://localhost:8090/cthun/'' 3 [''hello''] ''ca'' ''cert'' ''key'' fresh_manager))) = []
   \<and> calls (snd (runTestConnection refusing_api ''wss://localhost:8090/cthun/'' 3 [''hello'']
            ''ca'' ''cert'' ''key'' fresh_manager))
       = [CallConfigure ''ca'' ''cert'' ''key'',
          CallCreate ''wss://localhost:8090/cthun/'', CallSetOnFail 0 OnFail_c,
          CallSetOnOpen 0 (OnOpen_c [''hello'']), CallOpen 0,
          CallCreate ''wss://localhost:8090/cthun/'', CallSetOnFail 1 OnFail_c,
          CallSetOnOpen 1 (OnOpen_c [''hello'']), CallOpen 1]"
proof -
  let ?url = "''wss://localhost:8090/cthun/''"
  let ?cfg = "api_configureSecureEndpoint refusing_api ''ca'' ''cert'' ''key'' fresh_manager"
  let ?s0 = "configured ''ca'' ''cert'' ''key'' (snd ?cfg)"
  let ?before = "connectLoop refusing_api ?url [''hello''] 0 1 ?s0"
  let ?thrown = "connectOne refusing_api ?url [''hello''] (snd ?before)"
  have c: "fst ?cfg = Inr ()" by code_simp
  have b: "fst ?before = Inr ()" by code_simp
  have t: "fst ?thrown = Inl (ConnectionError PreconditionViolated)" by code_simp
  have cfg: "?cfg = (Inr (), snd ?cfg)" using c by (metis prod.collapse)
  have before: "?before = (Inr (), snd ?before)" using b by (metis prod.collapse)
  have thrown: "?thrown = (Inl (ConnectionError PreconditionViolated), snd ?thrown)"
    using t by (metis prod.collapse)
  have i: "(0::int) \<le> 1" "(1::int) < 3" by simp_all
  have h: "calls (snd (runTestConnection refusing_api ?url 3 [''hello''] ''ca'' ''cert'' ''key''
                         fresh_manager))
       = [CallConfigure ''ca'' ''cert'' ''key'',
          CallCreate ?url, CallSetOnFail 0 OnFail_c, CallSetOnOpen 0 (OnOpen_c [''hello'']),
          CallOpen 0,
          CallCreate ?url, CallSetOnFail 1 OnFail_c, CallSetOnOpen 1 (OnOpen_c [''hello'']),
          CallOpen 1]"
    by code_simp
  from client_error_stops_batch[OF cfg i before thrown] c b t h
  show ?thesis by simp
qed

section \<open>The second loop\<close>

lemma sendLoop_calls:
  "connections (snd (sendLoop api cs idx s)) = connections s
   \<and> (\<exists>u. send_phase u \<and> calls (snd (sendLoop api cs idx s)) = calls s @ u)"
proof (induction cs arbitrary: idx s)
  case Nil
  show ?case by (auto intro: sp_nil)
next
  case (Cons c cs)
  let ?st = "api_getState api c (mgr s)"
  let ?s1 = "called (CallGetState c ?st) (mgr s) s"
  let ?msg = "''### Message (SYNC) for connection '' @ to_string (idx + 1)"
  show ?case
  proof (cases "?st = Open")
    case False
    from Cons.IH[of "idx + 1" ?s1] obtain u where
      u: "send_phase u" "calls (snd (sendLoop api cs (idx + 1) ?s1)) = calls ?s1 @ u"
      and k: "connections (snd (sendLoop api cs (idx + 1) ?s1)) = connections ?s1"
      by blast
    have "send_phase (CallGetState c ?st # u)" using u(1) False by (rule sp_skip)
    moreover have "calls (snd (sendLoop api (c # cs) idx s)) = calls s @ CallGetState c ?st # u"
      using False u(2) by (simp add: Let_def called_def)
    moreover have "connections (snd (sendLoop api (c # cs) idx s)) = connections s"
      using False k by (simp add: Let_def called_def)
    ultimately show ?thesis by blast
  next
    case True
    obtain r m' where snd: "api_send api c ?msg (mgr ?s1) = (r, m')"
      by (cases "api_send api c ?msg (mgr ?s1)") auto
    let ?s2 = "called (CallSend c ?msg) m' ?s1"
    show ?thesis
    proof (cases r)
      case (Inl e)
      have "send_phase (CallGetState c Open # CallSend c ?msg # [])"
        using sp_nil by (rule sp_send)
      moreover have "calls (snd (sendLoop api (c # cs) idx s))
                       = calls s @ [CallGetState c Open, CallSend c ?msg]"
        using True snd Inl by (simp add: Let_def called_def)
      moreover have "connections (snd (sendLoop api (c # cs) idx s)) = connections s"
        using True snd Inl by (simp add: Let_def called_def)
      ultimately show ?thesis by blast
    next
      case (Inr v)
      from Cons.IH[of "idx + 1" ?s2] obtain u where
        u: "send_phase u" "calls (snd (sendLoop api cs (idx + 1) ?s2)) = calls ?s2 @ u"
        and k: "connections (snd (sendLoop api cs (idx + 1) ?s2)) = connections ?s2"
        by blast
      have "send_phase (CallGetState c Open # CallSend c ?msg # u)"
        using u(1) by (rule sp_send)
      moreover have "calls (snd (sendLoop api (c # cs) idx s))
                       = calls s @ CallGetState c Open # CallSend c ?msg # u"
        using True snd Inr u(2) by (simp add: Let_def called_def)
      moreover have "connections (snd (sendLoop api (c # cs) idx s)) = connections s"
        using True snd Inr k by (simp add: Let_def called_def)
      ultimately show ?thesis by blast
    qed
  qed
qed

text \<open>The loop starts by reading the state of the first stored connection.\<close>

lemma sendLoop_first:
  "\<exists>rest. calls (snd (sendLoop api (c # cs) idx s))
             = calls s @ CallGetState c (api_getState api c (mgr s)) # rest"
proof -
  from sendLoop_calls[of api cs] have tail:
    "\<exists>u. calls (snd (sendLoop api cs j t)) = calls t @ u" for j t
    by blast
  let ?st = "api_getState api c (mgr s)"
  let ?s1 = "called (CallGetState c ?st) (mgr s) s"
  let ?msg = "''### Message (SYNC) for connection '' @ to_string (idx + 1)"
  show ?thesis
  proof (cases "?st = Open")
    case False
    from tail[of "idx + 1" ?s1] obtain u where
      "calls (snd (sendLoop api cs (idx + 1) ?s1)) = calls ?s1 @ u" by blast
    then have "calls (snd (sendLoop api (c # cs) idx s)) = calls s @ CallGetState c ?st # u"
      using False by (simp add: Let_def called_def)
    then show ?thesis by blast
  next
    case True
    obtain r m' where snd: "api_send api c ?msg (mgr ?s1) = (r, m')"
      by (cases "api_send api c ?msg (mgr ?s1)") auto
    let ?s2 = "called (CallSend c ?msg) m' ?s1"
    show ?thesis
    proof (cases r)
      case (Inl e)
      have "calls (snd (sendLoop api (c # cs) idx s))
              = calls s @ CallGetState c ?st # [CallSend c ?msg]"
        using True snd Inl by (simp add: Let_def called_def)
      then show ?thesis by blast
    next
      case (Inr v)
      from tail[of "idx + 1" ?s2] obtain u where
        "calls (snd (sendLoop api cs (idx + 1) ?s2)) = calls ?s2 @ u" by blast
      then have "calls (snd (sendLoop api (c # cs) idx s))
                   = calls s @ CallGetState c ?st # CallSend c ?msg # u"
        using True snd Inr by (simp add: Let_def called_def)
      then show ?thesis by blast
    qed
  qed
qed

lemma send_phase_no_open: "send_phase u \<Longrightarrow> filter is_open u = []"
  by (induction rule: send_phase.induct) auto

lemma sfos_Cons_other:
  assumes "sends_follow_open_state u" and "\<And>c p. x \<noteq> CallSend c p"
  shows "sends_follow_open_state (x # u)"
  unfolding sends_follow_open_state_def
proof (intro allI impI)
  fix pre c p post
  assume eq: "x # u = pre @ CallSend c p # post"
  show "\<exists>pre'. pre = pre' @ [CallGetState c Open]"
  proof (cases pre)
    case Nil
    with eq assms(2) show ?thesis by simp
  next
    case (Cons y pre2)
    with eq have "u = pre2 @ CallSend c p # post" "y = x" by simp_all
    with assms(1) obtain pre' where "pre2 = pre' @ [CallGetState c Open]"
      unfolding sends_follow_open_state_def by blast
    with Cons have "pre = (y # pre') @ [CallGetState c Open]" by simp
    then show ?thesis by blast
  qed
qed

lemma sfos_Cons_send:
  assumes "sends_follow_open_state u"
  shows "sends_follow_open_state (CallGetState c Open # CallSend c p # u)"
  unfolding sends_follow_open_state_def
proof (intro allI impI)
  fix pre c' p' post
  assume eq: "CallGetState c Open # CallSend c p # u = pre @ CallSend c' p' # post"
  show "\<exists>pre'. pre = pre' @ [CallGetState c' Open]"
  proof (cases pre)
    case Nil
    with eq show ?thesis by simp
  next
    case (Cons y pre2)
    note p1 = this
    with eq have e2: "CallSend c p # u = pre2 @ CallSend c' p' # post" "y = CallGetState c Open"
      by simp_all
    show ?thesis
    proof (cases pre2)
      case Nil
      with e2 p1 have "pre = [] @ [CallGetState c' Open]" by simp
      then show ?thesis by blast
    next
      case (Cons z pre3)
      with e2 have "u = pre3 @ CallSend c' p' # post" by simp
      with assms obtain pre' where "pre3 = pre' @ [CallGetState c' Open]"
        unfolding sends_follow_open_state_def by blast
      with p1 Cons have "pre = (y # z # pre') @ [CallGetState c' Open]" by simp
      then show ?thesis by blast
    qed
  qed
qed

lemma send_phase_sfos: "send_phase u \<Longrightarrow> sends_follow_open_state u"
proof (induction rule: send_phase.induct)
  case sp_nil
  show ?case by (simp add: sends_follow_open_state_def)
next
  case (sp_skip u st c)
  from sp_skip.IH show ?case by (rule sfos_Cons_other) simp
next
  case (sp_send u c p)
  from sp_send.IH show ?case by (rule sfos_Cons_send)
qed

lemma sfos_append_other:
  assumes "sends_follow_open_state u" and "\<And>c p. CallSend c p \<notin> set w"
  shows "sends_follow_open_state (u @ w)"
  unfolding sends_follow_open_state_def
proof (intro allI impI)
  fix pre c p post
  assume eq: "u @ w = pre @ CallSend c p # post"
  then obtain v where "(u = pre @ v \<and> v @ w = CallSend c p # post)
                      \<or> (u @ v = pre \<and> w = v @ CallSend c p # post)"
    by (auto simp: append_eq_append_conv2)
  then show "\<exists>pre'. pre = pre' @ [CallGetState c Open]"
  proof
    assume a: "u = pre @ v \<and> v @ w = CallSend c p # post"
    show ?thesis
    proof (cases v)
      case Nil
      with a have "CallSend c p \<in> set w" by simp
      with assms(2) show ?thesis by blast
    next
      case (Cons x v')
      with a have "u = pre @ CallSend c p # v'" by simp
      with assms(1) show ?thesis unfolding sends_follow_open_state_def by blast
    qed
  next
    assume "u @ v = pre \<and> w = v @ CallSend c p # post"
    then have "CallSend c p \<in> set w" by simp
    with assms(2) show ?thesis by blast
  qed
qed

section \<open>The whole run\<close>

text \<open>
  When the first loop ends without an error, the run continues with \<^verbatim>\<open>sleep(4)\<close>, the
  second loop and, unless a send throws, the two further waits and
  \<^verbatim>\<open>closeAllConnections\<close>.
\<close>

lemma runTestConnection_calls:
  assumes cfg: "api_configureSecureEndpoint api ca_crt_path client_crt_path client_key_path m0
                  = (Inr u, m1)"
    and loop: "connectLoop api url messages 0 num_connections
                 (configured ca_crt_path client_crt_path client_key_path m1) = (Inr v, s1)"
  shows "\<exists>w tl. send_phase w
           \<and> (tl = [] \<or> tl = [CallSleep 4, CallSleep 6, CallCloseAll])
           \<and> calls (snd (runTestConnection api url num_connections messages ca_crt_path
                            client_crt_path client_key_path m0))
               = calls s1 @ CallSleep 4 # w @ tl
           \<and> calls (snd (sendLoop api (connections s1) 0 (sleep api 4 s1)))
               = calls s1 @ CallSleep 4 # w"
proof -
  let ?s2 = "sleep api 4 s1"
  obtain r s3 where sl: "sendLoop api (connections s1) 0 ?s2 = (r, s3)"
    by (cases "sendLoop api (connections s1) 0 ?s2") auto
  from sendLoop_calls[of api "connections s1" 0 ?s2] sl obtain w where
    w: "send_phase w" "calls s3 = calls ?s2 @ w"
    by auto
  have c2: "calls ?s2 = calls s1 @ [CallSleep 4]"
    by (simp add: sleep_def called_def)
  show ?thesis
  proof (cases r)
    case (Inl e)
    have "calls (snd (runTestConnection api url num_connections messages ca_crt_path
                        client_crt_path client_key_path m0)) = calls s1 @ CallSleep 4 # w @ []"
      using cfg loop sl Inl w c2 by (simp add: runTestConnection_def)
    with w c2 sl show ?thesis by auto
  next
    case (Inr x)
    obtain r4 m4 where
      ca: "api_closeAllConnections api (mgr (sleep api 6 (sleep api 4 s3))) = (r4, m4)"
      by (cases "api_closeAllConnections api (mgr (sleep api 6 (sleep api 4 s3)))") auto
    have "calls (snd (runTestConnection api url num_connections messages ca_crt_path
                        client_crt_path client_key_path m0))
            = calls s1 @ CallSleep 4 # w @ [CallSleep 4, CallSleep 6, CallCloseAll]"
      using cfg loop sl Inr w c2 ca
      by (cases r4) (simp_all add: runTestConnection_def Let_def sleep_def called_def)
    with w c2 sl show ?thesis by auto
  qed
qed

section \<open>The history and the manager\<close>

text \<open>
  The history of a run is in step with the manager: the manager of the driver is the
  initial manager after the calls of the history.
\<close>

lemma replay_Nil [simp]: "replay api [] m = m"
  by (simp add: replay_def)

lemma replay_Cons [simp]: "replay api (c # t) m = replay api t (apply_call api c m)"
  by (simp add: replay_def)

lemma replay_append [simp]: "replay api (t @ u) m = replay api u (replay api t m)"
  by (simp add: replay_def)

lemma oar_append_other:
  assumes "opens_after_registrations api url messages m0 t" and "filter is_open u = []"
  shows "opens_after_registrations api url messages m0 (t @ u)"
  unfolding opens_after_registrations_def
proof (intro allI impI)
  fix pre c post
  assume eq: "t @ u = pre @ CallOpen c # post"
  then obtain w where "(t = pre @ w \<and> w @ u = CallOpen c # post)
                      \<or> (t @ w = pre \<and> u = w @ CallOpen c # post)"
    by (auto simp: append_eq_append_conv2)
  then have "\<exists>w'. t = pre @ CallOpen c # w'"
  proof
    assume a: "t = pre @ w \<and> w @ u = CallOpen c # post"
    show ?thesis
    proof (cases w)
      case Nil
      with a have "u = CallOpen c # post" by simp
      with assms(2) show ?thesis by simp
    next
      case (Cons x w')
      with a have "t = pre @ CallOpen c # w'" by simp
      then show ?thesis by blast
    qed
  next
    assume "t @ w = pre \<and> u = w @ CallOpen c # post"
    then have "u = w @ CallOpen c # post" by simp
    with assms(2) show ?thesis by simp
  qed
  with assms(1) show "\<exists>pre' m1 m2 m3.
           pre = pre' @ [CallCreate url, CallSetOnFail c OnFail_c, CallSetOnOpen c (OnOpen_c messages)]
           \<and> api_createConnection api url (replay api pre' m0) = (Inr c, m1)
           \<and> api_setOnFailCallback api c OnFail_c m1 = (Inr (), m2)
           \<and> api_setOnOpenCallback api c (OnOpen_c messages) m2 = (Inr (), m3)
           \<and> replay api pre m0 = m3"
    unfolding opens_after_registrations_def by blast
qed

lemma oar_iteration:
  assumes t: "opens_after_registrations api url messages m0 t"
    and c1: "api_createConnection api url (replay api t m0) = (Inr c, m1)"
    and c2: "api_setOnFailCallback api c OnFail_c m1 = (Inr (), m2)"
    and c3: "api_setOnOpenCallback api c (OnOpen_c messages) m2 = (Inr (), m3)"
  shows "opens_after_registrations api url messages m0 (t @ iteration_calls url messages c)"
  unfolding opens_after_registrations_def
proof (intro allI impI)
  let ?reg = "[CallCreate url, CallSetOnFail c OnFail_c, CallSetOnOpen c (OnOpen_c messages)]"
  fix pre c' post
  assume eq: "t @ iteration_calls url messages c = pre @ CallOpen c' # post"
  then have eq': "(t @ ?reg) @ [CallOpen c] = pre @ CallOpen c' # post"
    by (simp add: iteration_calls_def)
  show "\<exists>pre' m1 m2 m3.
           pre = pre' @ [CallCreate url, CallSetOnFail c' OnFail_c, CallSetOnOpen c' (OnOpen_c messages)]
           \<and> api_createConnection api url (replay api pre' m0) = (Inr c', m1)
           \<and> api_setOnFailCallback api c' OnFail_c m1 = (Inr (), m2)
           \<and> api_setOnOpenCallback api c' (OnOpen_c messages) m2 = (Inr (), m3)
           \<and> replay api pre m0 = m3"
  proof (cases post rule: rev_cases)
    case Nil
    with eq' have c: "c = c'" by simp
    from Nil eq' have p: "pre = t @ ?reg" by auto
    have "replay api pre m0 = m3" using p c1 c2 c3 by simp
    with p c c1 c2 c3 show ?thesis by blast
  next
    case (snoc post' x)
    with eq' have "t @ ?reg = pre @ CallOpen c' # post'" by simp
    moreover have "opens_after_registrations api url messages m0 (t @ ?reg)"
      using t by (rule oar_append_other) simp
    ultimately show ?thesis unfolding opens_after_registrations_def by blast
  qed
qed

text \<open>One iteration keeps the history in step with the manager.\<close>

lemma connectOne_replay:
  assumes m: "mgr s = replay api (calls s) m0"
    and t: "opens_after_registrations api url messages m0 (calls s)"
  shows "mgr (snd (connectOne api url messages s))
           = replay api (calls (snd (connectOne api url messages s))) m0
         \<and> opens_after_registrations api url messages m0
             (calls (snd (connectOne api url messages s)))"
proof -
  obtain r1 m1 where c1: "api_createConnection api url (mgr s) = (r1, m1)"
    by (cases "api_createConnection api url (mgr s)") auto
  show ?thesis
  proof (cases r1)
    case (Inl e)
    have "opens_after_registrations api url messages m0 (calls s @ [CallCreate url])"
      using t by (rule oar_append_other) simp
    with c1 Inl m show ?thesis
      by (simp add: connectOne_def called_def)
  next
    case (Inr c)
    note r1 = this
    obtain r2 m2 where c2: "api_setOnFailCallback api c OnFail_c m1 = (r2, m2)"
      by (cases "api_setOnFailCallback api c OnFail_c m1") auto
    show ?thesis
    proof (cases r2)
      case (Inl e)
      have "opens_after_registrations api url messages m0
              (calls s @ [CallCreate url, CallSetOnFail c OnFail_c])"
        using t by (rule oar_append_other) simp
      with c1 r1 c2 Inl m show ?thesis
        by (simp add: connectOne_def called_def)
    next
      case (Inr u2)
      note r2 = this
      obtain r3 m3 where c3: "api_setOnOpenCallback api c (OnOpen_c messages) m2 = (r3, m3)"
        by (cases "api_setOnOpenCallback api c (OnOpen_c messages) m2") auto
      show ?thesis
      proof (cases r3)
        case (Inl e)
        have "opens_after_registrations api url messages m0
                (calls s @ [CallCreate url, CallSetOnFail c OnFail_c,
                            CallSetOnOpen c (OnOpen_c messages)])"
          using t by (rule oar_append_other) simp
        with c1 r1 c2 r2 c3 Inl m show ?thesis
          by (simp add: connectOne_def called_def)
      next
        case (Inr u3)
        note r3 = this
        have "opens_after_registrations api url messages m0
                (calls s @ iteration_calls url messages c)"
          using t c1 r1 c2 r2 c3 r3 m by (intro oar_iteration[of _ _ _ _ _ _ m1 m2 m3]) simp_all
        then have o: "opens_after_registrations api url messages m0
                (calls s @ [CallCreate url, CallSetOnFail c OnFail_c,
                            CallSetOnOpen c (OnOpen_c messages), CallOpen c])"
          by (simp add: iteration_calls_def)
        obtain r4 m4 where c4: "api_open api c m3 = (r4, m4)"
          by (cases "api_open api c m3") auto
        from o c1 r1 c2 r2 c3 r3 c4 m show ?thesis
          by (cases r4) (simp_all add: connectOne_def called_def)
      qed
    qed
  qed
qed

lemma connectLoop_replay:
  assumes "mgr s = replay api (calls s) m0"
    and "opens_after_registrations api url messages m0 (calls s)"
  shows "mgr (snd (connectLoop api url messages i n s))
           = replay api (calls (snd (connectLoop api url messages i n s))) m0
         \<and> opens_after_registrations api url messages m0
             (calls (snd (connectLoop api url messages i n s)))"
  using assms
proof (induction api url messages i n s rule: connectLoop.induct)
  case (1 api url messages i n s)
  show ?case
  proof (cases "i < n")
    case False
    with "1.prems" show ?thesis
      by (simp add: connectLoop.simps[of api url messages i n s])
  next
    case True
    obtain r s' where one: "connectOne api url messages s = (r, s')"
      by (cases "connectOne api url messages s") auto
    from connectOne_replay[OF "1.prems"] one
    have s': "mgr s' = replay api (calls s') m0"
      "opens_after_registrations api url messages m0 (calls s')"
      by simp_all
    show ?thesis
    proof (cases r)
      case (Inl e)
      with one True s' show ?thesis
        by (simp add: connectLoop.simps[of api url messages i n s])
    next
      case (Inr u)
      from "1.IH"[OF True _ _ s'] one Inr
      have "mgr (snd (connectLoop api url messages (i + 1) n s'))
              = replay api (calls (snd (connectLoop api url messages (i + 1) n s'))) m0
            \<and> opens_after_registrations api url messages m0
                (calls (snd (connectLoop api url messages (i + 1) n s')))"
        by simp
      with one True Inr show ?thesis
        by (simp add: connectLoop.simps[of api url messages i n s])
    qed
  qed
qed

text \<open>The second loop keeps the history in step with the manager.\<close>

lemma sendLoop_replay:
  "\<exists>u. calls (snd (sendLoop api cs idx s)) = calls s @ u
      \<and> mgr (snd (sendLoop api cs idx s)) = replay api u (mgr s)"
proof (induction cs arbitrary: idx s)
  case Nil
  show ?case by simp
next
  case (Cons c cs)
  let ?st = "api_getState api c (mgr s)"
  let ?s1 = "called (CallGetState c ?st) (mgr s) s"
  let ?msg = "''### Message (SYNC) for connection '' @ to_string (idx + 1)"
  show ?case
  proof (cases "?st = Open")
    case False
    from Cons.IH[of "idx + 1" ?s1] obtain u where
      u: "calls (snd (sendLoop api cs (idx + 1) ?s1)) = calls ?s1 @ u"
         "mgr (snd (sendLoop api cs (idx + 1) ?s1)) = replay api u (mgr ?s1)"
      by blast
    have "calls (snd (sendLoop api (c # cs) idx s)) = calls s @ CallGetState c ?st # u"
      using False u(1) by (simp add: Let_def called_def)
    moreover have "mgr (snd (sendLoop api (c # cs) idx s))
                     = replay api (CallGetState c ?st # u) (mgr s)"
      using False u(2) by (simp add: Let_def called_def)
    ultimately show ?thesis by blast
  next
    case True
    obtain r m' where snd: "api_send api c ?msg (mgr ?s1) = (r, m')"
      by (cases "api_send api c ?msg (mgr ?s1)") auto
    let ?s2 = "called (CallSend c ?msg) m' ?s1"
    show ?thesis
    proof (cases r)
      case (Inl e)
      have "calls (snd (sendLoop api (c # cs) idx s))
              = calls s @ [CallGetState c Open, CallSend c ?msg]"
        using True snd Inl by (simp add: Let_def called_def)
      moreover have "mgr (snd (sendLoop api (c # cs) idx s))
                       = replay api [CallGetState c Open, CallSend c ?msg] (mgr s)"
        using True snd Inl by (simp add: Let_def called_def)
      ultimately show ?thesis by blast
    next
      case (Inr v)
      from Cons.IH[of "idx + 1" ?s2] obtain u where
        u: "calls (snd (sendLoop api cs (idx + 1) ?s2)) = calls ?s2 @ u"
           "mgr (snd (sendLoop api cs (idx + 1) ?s2)) = replay api u (mgr ?s2)"
        by blast
      have "calls (snd (sendLoop api (c # cs) idx s))
              = calls s @ CallGetState c Open # CallSend c ?msg # u"
        using True snd Inr u(1) by (simp add: Let_def called_def)
      moreover have "mgr (snd (sendLoop api (c # cs) idx s))
                       = replay api (CallGetState c Open # CallSend c ?msg # u) (mgr s)"
        using True snd Inr u(2) by (simp add: Let_def called_def)
      ultimately show ?thesis by blast
    qed
  qed
qed

text \<open>The history of a run is in step with the manager.\<close>

lemma runTestConnection_replay:
  "mgr (snd (runTestConnection api url num_connections messages ca_crt_path
               client_crt_path client_key_path m0))
     = replay api (calls (snd (runTestConnection api url num_connections messages ca_crt_path
                                 client_crt_path client_key_path m0))) m0
   \<and> opens_after_registrations api url messages m0
       (calls (snd (runTestConnection api url num_connections messages ca_crt_path
                      client_crt_path client_key_path m0)))"
proof -
  let ?cfg = "CallConfigure ca_crt_path client_crt_path client_key_path"
  have base: "opens_after_registrations api url messages m0 [?cfg]"
    by (simp add: opens_after_registrations_def Cons_eq_append_conv)
  obtain r1 m1 where
    c1: "api_configureSecureEndpoint api ca_crt_path client_crt_path client_key_path m0 = (r1, m1)"
    by (cases "api_configureSecureEndpoint api ca_crt_path client_crt_path client_key_path m0") auto
  show ?thesis
  proof (cases r1)
    case (Inl e)
    with c1 base show ?thesis
      by (simp add: runTestConnection_def configured_def)
  next
    case (Inr u)
    note r1 = this
    let ?s0 = "configured ca_crt_path client_crt_path client_key_path m1"
    have s0: "mgr ?s0 = replay api (calls ?s0) m0"
      "opens_after_registrations api url messages m0 (calls ?s0)"
      using base c1 by (simp_all add: configured_def)
    obtain r2 s1 where c2: "connectLoop api url messages 0 num_connections ?s0 = (r2, s1)"
      by (cases "connectLoop api url messages 0 num_connections ?s0") auto
    from connectLoop_replay[OF s0, of 0 num_connections] c2
    have s1: "mgr s1 = replay api (calls s1) m0"
      "opens_after_registrations api url messages m0 (calls s1)"
      by simp_all
    show ?thesis
    proof (cases r2)
      case (Inl e)
      with c1 r1 c2 s1 show ?thesis
        by (simp add: runTestConnection_def)
    next
      case (Inr v)
      note r2 = this
      let ?s2 = "sleep api 4 s1"
      obtain r3 s3 where c3: "sendLoop api (connections s1) 0 ?s2 = (r3, s3)"
        by (cases "sendLoop api (connections s1) 0 ?s2") auto
      from sendLoop_replay[of api "connections s1" 0 ?s2] c3 obtain w where
        w: "calls s3 = calls ?s2 @ w" "mgr s3 = replay api w (mgr ?s2)"
        by auto
      from sendLoop_calls[of api "connections s1" 0 ?s2] c3 w(1) have sp: "send_phase w"
        by auto
      have no: "filter is_open w = []" using sp by (rule send_phase_no_open)
      have s3m: "mgr s3 = replay api (calls s3) m0"
        using w s1(1) by (simp add: sleep_def called_def)
      have s3c: "calls s3 = calls s1 @ CallSleep 4 # w"
        using w(1) by (simp add: sleep_def called_def)
      have s3o: "opens_after_registrations api url messages m0 (calls s3)"
        unfolding s3c using s1(2) by (rule oar_append_other) (simp add: no)
      show ?thesis
      proof (cases r3)
        case (Inl e)
        with c1 r1 c2 r2 c3 s3m s3o show ?thesis
          by (simp add: runTestConnection_def)
      next
        case (Inr x)
        let ?s5 = "sleep api 6 (sleep api 4 s3)"
        obtain r4 m4 where ca: "api_closeAllConnections api (mgr ?s5) = (r4, m4)"
          by (cases "api_closeAllConnections api (mgr ?s5)") auto
        have fin: "snd (runTestConnection api url num_connections messages ca_crt_path
                          client_crt_path client_key_path m0) = called CallCloseAll m4 ?s5"
          using c1 r1 c2 r2 c3 Inr ca
          by (cases r4) (simp_all add: runTestConnection_def Let_def)
        have fc: "calls (called CallCloseAll m4 ?s5)
                    = calls s3 @ [CallSleep 4, CallSleep 6, CallCloseAll]"
          by (simp add: sleep_def called_def)
        have fm: "mgr (called CallCloseAll m4 ?s5)
                    = replay api (calls s3 @ [CallSleep 4, CallSleep 6, CallCloseAll]) m0"
          using ca s3m by (simp add: sleep_def called_def)
        have fo: "opens_after_registrations api url messages m0
                    (calls s3 @ [CallSleep 4, CallSleep 6, CallCloseAll])"
          using s3o by (rule oar_append_other) simp
        from fin fc fm fo show ?thesis by simp
      qed
    qed
  qed
qed

section \<open>The reads of the second loop\<close>

lemma reads_of_append [simp]: "reads_of (t @ u) = reads_of t @ reads_of u"
proof (induction t)
  case Nil
  show ?case by simp
next
  case (Cons x t)
  then show ?case by (cases x) simp_all
qed

lemma reads_of_no_read:
  assumes "reads_of w = []"
  shows "w \<noteq> pre @ CallGetState c st # post"
proof
  assume "w = pre @ CallGetState c st # post"
  then have "reads_of w = reads_of pre @ c # reads_of post" by simp
  with assms show False by simp
qed

lemma rc_Cons:
  assumes "reads_current api (apply_call api x m) t"
    and "\<And>c st. x = CallGetState c st \<Longrightarrow> st = api_getState api c m"
  shows "reads_current api m (x # t)"
  unfolding reads_current_def
proof (intro allI impI)
  fix pre c st post
  assume eq: "x # t = pre @ CallGetState c st # post"
  show "st = api_getState api c (replay api pre m)"
  proof (cases pre)
    case Nil
    with eq have "x = CallGetState c st" by simp
    with assms(2) Nil show ?thesis by simp
  next
    case (Cons y pre')
    with eq have "y = x" "t = pre' @ CallGetState c st # post" by simp_all
    with assms(1) Cons show ?thesis unfolding reads_current_def by auto
  qed
qed

lemma rc_append:
  assumes "reads_current api m t" and "reads_of w = []"
  shows "reads_current api m (t @ w)"
  unfolding reads_current_def
proof (intro allI impI)
  fix pre c st post
  assume eq: "t @ w = pre @ CallGetState c st # post"
  then obtain v where "(t = pre @ v \<and> v @ w = CallGetState c st # post)
                      \<or> (t @ v = pre \<and> w = v @ CallGetState c st # post)"
    by (auto simp: append_eq_append_conv2)
  then show "st = api_getState api c (replay api pre m)"
  proof
    assume a: "t = pre @ v \<and> v @ w = CallGetState c st # post"
    show ?thesis
    proof (cases v)
      case Nil
      with a have "w = [] @ CallGetState c st # post" by simp
      with reads_of_no_read[OF assms(2)] show ?thesis by blast
    next
      case (Cons x v')
      with a have "t = pre @ CallGetState c st # v'" by simp
      with assms(1) show ?thesis unfolding reads_current_def by blast
    qed
  next
    assume "t @ v = pre \<and> w = v @ CallGetState c st # post"
    with reads_of_no_read[OF assms(2)] show ?thesis by blast
  qed
qed

lemma ors_Cons_other:
  assumes "open_reads_send t" and "\<And>c. x \<noteq> CallGetState c Open"
  shows "open_reads_send (x # t)"
  unfolding open_reads_send_def
proof (intro allI impI)
  fix pre c post
  assume eq: "x # t = pre @ CallGetState c Open # post"
  show "\<exists>p post'. post = CallSend c p # post'"
  proof (cases pre)
    case Nil
    with eq assms(2) show ?thesis by simp
  next
    case (Cons y pre')
    with eq have "t = pre' @ CallGetState c Open # post" by simp
    with assms(1) show ?thesis unfolding open_reads_send_def by blast
  qed
qed

lemma ors_Cons_send:
  assumes "open_reads_send t"
  shows "open_reads_send (CallGetState c Open # CallSend c p # t)"
  unfolding open_reads_send_def
proof (intro allI impI)
  fix pre c' post
  assume eq: "CallGetState c Open # CallSend c p # t = pre @ CallGetState c' Open # post"
  show "\<exists>p post'. post = CallSend c' p # post'"
  proof (cases pre)
    case Nil
    with eq show ?thesis by auto
  next
    case (Cons y pre')
    with eq have "CallSend c p # t = pre' @ CallGetState c' Open # post" by simp
    moreover have "open_reads_send (CallSend c p # t)"
      using assms by (rule ors_Cons_other) simp
    ultimately show ?thesis unfolding open_reads_send_def by blast
  qed
qed

lemma send_phase_ors: "send_phase t \<Longrightarrow> open_reads_send t"
proof (induction rule: send_phase.induct)
  case sp_nil
  show ?case by (simp add: open_reads_send_def)
next
  case (sp_skip u st c)
  from sp_skip.IH show ?case by (rule ors_Cons_other) (use sp_skip.hyps in auto)
next
  case (sp_send u c p)
  from sp_send.IH show ?case by (rule ors_Cons_send)
qed

lemma ors_append:
  assumes "open_reads_send t" and "reads_of w = []"
  shows "open_reads_send (t @ w)"
  unfolding open_reads_send_def
proof (intro allI impI)
  fix pre c post
  assume eq: "t @ w = pre @ CallGetState c Open # post"
  then obtain v where "(t = pre @ v \<and> v @ w = CallGetState c Open # post)
                      \<or> (t @ v = pre \<and> w = v @ CallGetState c Open # post)"
    by (auto simp: append_eq_append_conv2)
  then show "\<exists>p post'. post = CallSend c p # post'"
  proof
    assume a: "t = pre @ v \<and> v @ w = CallGetState c Open # post"
    show ?thesis
    proof (cases v)
      case Nil
      with a have "w = [] @ CallGetState c Open # post" by simp
      with reads_of_no_read[OF assms(2)] show ?thesis by blast
    next
      case (Cons x v')
      with a have t: "t = pre @ CallGetState c Open # v'" and p: "post = v' @ w" by simp_all
      from t assms(1) obtain p' post' where "v' = CallSend c p' # post'"
        unfolding open_reads_send_def by blast
      with p show ?thesis by simp
    qed
  next
    assume "t @ v = pre \<and> w = v @ CallGetState c Open # post"
    with reads_of_no_read[OF assms(2)] show ?thesis by blast
  qed
qed

text \<open>The second loop reads the connections in order, each state as the manager has it.\<close>

lemma sendLoop_reads:
  "\<exists>u. calls (snd (sendLoop api cs idx s)) = calls s @ u
      \<and> reads_current api (mgr s) u
      \<and> ((fst (sendLoop api cs idx s) = Inr () \<and> reads_of u = cs)
         \<or> (\<exists>e pre c p cs'. fst (sendLoop api cs idx s) = Inl e
               \<and> u = pre @ [CallSend c p]
               \<and> fst (api_send api c p (replay api pre (mgr s))) = Inl e
               \<and> cs = reads_of u @ cs'))"
proof (induction cs arbitrary: idx s)
  case Nil
  show ?case by (simp add: reads_current_def)
next
  case (Cons c cs)
  let ?st = "api_getState api c (mgr s)"
  let ?s1 = "called (CallGetState c ?st) (mgr s) s"
  let ?msg = "''### Message (SYNC) for connection '' @ to_string (idx + 1)"
  show ?case
  proof (cases "?st = Open")
    case False
    let ?R = "sendLoop api cs (idx + 1) ?s1"
    have same: "sendLoop api (c # cs) idx s = ?R"
      using False by (simp add: Let_def)
    from Cons.IH[of "idx + 1" ?s1] obtain u where
      u: "calls (snd ?R) = calls ?s1 @ u"
      and rc: "reads_current api (mgr ?s1) u"
      and d: "(fst ?R = Inr () \<and> reads_of u = cs)
         \<or> (\<exists>e pre c p cs'. fst ?R = Inl e
               \<and> u = pre @ [CallSend c p]
               \<and> fst (api_send api c p (replay api pre (mgr ?s1))) = Inl e
               \<and> cs = reads_of u @ cs')"
      by blast
    let ?u = "CallGetState c ?st # u"
    have 1: "calls (snd (sendLoop api (c # cs) idx s)) = calls s @ ?u"
      using same u by (simp add: called_def)
    have 2: "reads_current api (mgr s) ?u"
      using rc by (intro rc_Cons) (simp_all add: called_def)
    from d have 3: "(fst (sendLoop api (c # cs) idx s) = Inr () \<and> reads_of ?u = c # cs)
         \<or> (\<exists>e pre c' p cs'. fst (sendLoop api (c # cs) idx s) = Inl e
               \<and> ?u = pre @ [CallSend c' p]
               \<and> fst (api_send api c' p (replay api pre (mgr s))) = Inl e
               \<and> c # cs = reads_of ?u @ cs')"
    proof
      assume "fst ?R = Inr () \<and> reads_of u = cs"
      with same show ?thesis by simp
    next
      assume "\<exists>e pre c p cs'. fst ?R = Inl e
               \<and> u = pre @ [CallSend c p]
               \<and> fst (api_send api c p (replay api pre (mgr ?s1))) = Inl e
               \<and> cs = reads_of u @ cs'"
      then obtain e pre c' p cs' where
        a: "fst ?R = Inl e" "u = pre @ [CallSend c' p]"
           "fst (api_send api c' p (replay api pre (mgr ?s1))) = Inl e"
           "cs = reads_of u @ cs'"
        by blast
      have "?u = (CallGetState c ?st # pre) @ [CallSend c' p]" using a(2) by simp
      moreover have "fst (api_send api c' p (replay api (CallGetState c ?st # pre) (mgr s))) = Inl e"
        using a(3) by (simp add: called_def)
      moreover have "c # cs = reads_of ?u @ cs'" using a(4) by simp
      moreover have "fst (sendLoop api (c # cs) idx s) = Inl e" using same a(1) by simp
      ultimately show ?thesis by blast
    qed
    from 1 2 3 show ?thesis by blast
  next
    case True
    obtain r m' where snd: "api_send api c ?msg (mgr s) = (r, m')"
      by (cases "api_send api c ?msg (mgr s)") auto
    let ?s2 = "called (CallSend c ?msg) m' ?s1"
    show ?thesis
    proof (cases r)
      case (Inl e)
      let ?u = "[CallGetState c Open, CallSend c ?msg]"
      have res: "sendLoop api (c # cs) idx s = (Inl e, ?s2)"
        using True snd Inl by (simp add: Let_def called_def)
      have 1: "calls (snd (sendLoop api (c # cs) idx s)) = calls s @ ?u"
        using res True by (simp add: called_def)
      have "reads_current api (mgr s) [CallGetState c ?st, CallSend c ?msg]"
        by (intro rc_Cons) (simp_all add: reads_current_def)
      then have 2: "reads_current api (mgr s) ?u" using True by simp
      have "?u = [CallGetState c Open] @ [CallSend c ?msg]" by simp
      moreover have "fst (api_send api c ?msg (replay api [CallGetState c Open] (mgr s))) = Inl e"
        using snd Inl by simp
      moreover have "c # cs = reads_of ?u @ cs" by simp
      moreover have "fst (sendLoop api (c # cs) idx s) = Inl e" using res by simp
      ultimately have 3: "\<exists>e pre c' p cs'. fst (sendLoop api (c # cs) idx s) = Inl e
               \<and> ?u = pre @ [CallSend c' p]
               \<and> fst (api_send api c' p (replay api pre (mgr s))) = Inl e
               \<and> c # cs = reads_of ?u @ cs'"
        by blast
      from 1 2 3 show ?thesis by blast
    next
      case (Inr v)
      let ?R = "sendLoop api cs (idx + 1) ?s2"
      have same: "sendLoop api (c # cs) idx s = ?R"
        using True snd Inr by (simp add: Let_def called_def)
      from Cons.IH[of "idx + 1" ?s2] obtain u where
        u: "calls (snd ?R) = calls ?s2 @ u"
        and rc: "reads_current api (mgr ?s2) u"
        and d: "(fst ?R = Inr () \<and> reads_of u = cs)
           \<or> (\<exists>e pre c p cs'. fst ?R = Inl e
                 \<and> u = pre @ [CallSend c p]
                 \<and> fst (api_send api c p (replay api pre (mgr ?s2))) = Inl e
                 \<and> cs = reads_of u @ cs')"
        by blast
      let ?u = "CallGetState c Open # CallSend c ?msg # u"
      have m2: "mgr ?s2 = m'" by (simp add: called_def)
      have 1: "calls (snd (sendLoop api (c # cs) idx s)) = calls s @ ?u"
        using same u True by (simp add: called_def)
      have "reads_current api (mgr s) (CallGetState c ?st # CallSend c ?msg # u)"
        using rc snd m2 by (intro rc_Cons) simp_all
      then have 2: "reads_current api (mgr s) ?u" using True by simp
      from d have 3: "(fst (sendLoop api (c # cs) idx s) = Inr () \<and> reads_of ?u = c # cs)
           \<or> (\<exists>e pre c' p cs'. fst (sendLoop api (c # cs) idx s) = Inl e
                 \<and> ?u = pre @ [CallSend c' p]
                 \<and> fst (api_send api c' p (replay api pre (mgr s))) = Inl e
                 \<and> c # cs = reads_of ?u @ cs')"
      proof
        assume "fst ?R = Inr () \<and> reads_of u = cs"
        with same show ?thesis by simp
      next
        assume "\<exists>e pre c p cs'. fst ?R = Inl e
                 \<and> u = pre @ [CallSend c p]
                 \<and> fst (api_send api c p (replay api pre (mgr ?s2))) = Inl e
                 \<and> cs = reads_of u @ cs'"
        then obtain e pre c' p cs' where
          a: "fst ?R = Inl e" "u = pre @ [CallSend c' p]"
             "fst (api_send api c' p (replay api pre (mgr ?s2))) = Inl e"
             "cs = reads_of u @ cs'"
          by blast
        have "?u = (CallGetState c Open # CallSend c ?msg # pre) @ [CallSend c' p]"
          using a(2) by simp
        moreover have "fst (api_send api c' p
                         (replay api (CallGetState c Open # CallSend c ?msg # pre) (mgr s))) = Inl e"
          using a(3) snd m2 by simp
        moreover have "c # cs = reads_of ?u @ cs'" using a(4) by simp
        moreover have "fst (sendLoop api (c # cs) idx s) = Inl e" using same a(1) by simp
        ultimately show ?thesis by blast
      qed
      from 1 2 3 show ?thesis by blast
    qed
  qed
qed

lemma te_Cons:
  assumes "throw_ends api (apply_call api x m) t"
    and "\<And>c p e. x = CallSend c p \<Longrightarrow> fst (api_send api c p m) = Inl e \<Longrightarrow> t = []"
  shows "throw_ends api m (x # t)"
  unfolding throw_ends_def
proof (intro allI impI, elim conjE)
  fix pre c p post e
  assume eq: "x # t = pre @ CallSend c p # post"
    and th: "fst (api_send api c p (replay api pre m)) = Inl e"
  show "post = []"
  proof (cases pre)
    case Nil
    with eq have "x = CallSend c p" "t = post" by simp_all
    with assms(2)[of c p e] th Nil show ?thesis by simp
  next
    case (Cons y pre')
    with eq have t: "t = pre' @ CallSend c p # post" and y: "y = x" by simp_all
    from th Cons y have "fst (api_send api c p (replay api pre' (apply_call api x m))) = Inl e"
      by simp
    with assms(1) t show ?thesis unfolding throw_ends_def by blast
  qed
qed

text \<open>A send that throws is the last call of the second loop, which then ends with an error.\<close>

lemma sendLoop_throw:
  "\<exists>u. calls (snd (sendLoop api cs idx s)) = calls s @ u
      \<and> throw_ends api (mgr s) u
      \<and> ((\<exists>pre c p e. u = pre @ [CallSend c p]
             \<and> fst (api_send api c p (replay api pre (mgr s))) = Inl e)
           \<longrightarrow> (\<exists>e. fst (sendLoop api cs idx s) = Inl e))"
proof (induction cs arbitrary: idx s)
  case Nil
  show ?case by (simp add: throw_ends_def)
next
  case (Cons c cs)
  let ?st = "api_getState api c (mgr s)"
  let ?s1 = "called (CallGetState c ?st) (mgr s) s"
  let ?msg = "''### Message (SYNC) for connection '' @ to_string (idx + 1)"
  show ?case
  proof (cases "?st = Open")
    case False
    let ?R = "sendLoop api cs (idx + 1) ?s1"
    have same: "sendLoop api (c # cs) idx s = ?R"
      using False by (simp add: Let_def)
    from Cons.IH[of "idx + 1" ?s1] obtain u where
      u: "calls (snd ?R) = calls ?s1 @ u"
      and te: "throw_ends api (mgr ?s1) u"
      and d: "(\<exists>pre c p e. u = pre @ [CallSend c p]
                 \<and> fst (api_send api c p (replay api pre (mgr ?s1))) = Inl e)
              \<longrightarrow> (\<exists>e. fst ?R = Inl e)"
      by blast
    let ?u = "CallGetState c ?st # u"
    have 1: "calls (snd (sendLoop api (c # cs) idx s)) = calls s @ ?u"
      using same u by (simp add: called_def)
    have 2: "throw_ends api (mgr s) ?u"
      using te by (intro te_Cons) (simp_all add: called_def)
    have 3: "(\<exists>pre c' p e. ?u = pre @ [CallSend c' p]
                 \<and> fst (api_send api c' p (replay api pre (mgr s))) = Inl e)
              \<longrightarrow> (\<exists>e. fst (sendLoop api (c # cs) idx s) = Inl e)"
    proof (intro impI, elim exE conjE)
      fix pre c' p e
      assume a: "?u = pre @ [CallSend c' p]"
        and b: "fst (api_send api c' p (replay api pre (mgr s))) = Inl e"
      from a obtain pre' where p: "pre = CallGetState c ?st # pre'" "u = pre' @ [CallSend c' p]"
        by (cases pre) auto
      with b have "fst (api_send api c' p (replay api pre' (mgr ?s1))) = Inl e"
        by (simp add: called_def)
      with p(2) d same show "\<exists>e. fst (sendLoop api (c # cs) idx s) = Inl e" by auto
    qed
    from 1 2 3 show ?thesis by blast
  next
    case True
    obtain r m' where snd: "api_send api c ?msg (mgr s) = (r, m')"
      by (cases "api_send api c ?msg (mgr s)") auto
    let ?s2 = "called (CallSend c ?msg) m' ?s1"
    show ?thesis
    proof (cases r)
      case (Inl e)
      let ?u = "[CallGetState c Open, CallSend c ?msg]"
      have res: "sendLoop api (c # cs) idx s = (Inl e, ?s2)"
        using True snd Inl by (simp add: Let_def called_def)
      have 1: "calls (snd (sendLoop api (c # cs) idx s)) = calls s @ ?u"
        using res True by (simp add: called_def)
      have "throw_ends api (mgr s) [CallGetState c Open, CallSend c ?msg]"
        by (intro te_Cons) (simp_all add: throw_ends_def)
      with 1 res show ?thesis by auto
    next
      case (Inr v)
      let ?R = "sendLoop api cs (idx + 1) ?s2"
      have same: "sendLoop api (c # cs) idx s = ?R"
        using True snd Inr by (simp add: Let_def called_def)
      from Cons.IH[of "idx + 1" ?s2] obtain u where
        u: "calls (snd ?R) = calls ?s2 @ u"
        and te: "throw_ends api (mgr ?s2) u"
        and d: "(\<exists>pre c p e. u = pre @ [CallSend c p]
                   \<and> fst (api_send api c p (replay api pre (mgr ?s2))) = Inl e)
                \<longrightarrow> (\<exists>e. fst ?R = Inl e)"
        by blast
      let ?u = "CallGetState c Open # CallSend c ?msg # u"
      have m2: "mgr ?s2 = m'" by (simp add: called_def)
      have 1: "calls (snd (sendLoop api (c # cs) idx s)) = calls s @ ?u"
        using same u True by (simp add: called_def)
      have 2: "throw_ends api (mgr s) ?u"
        using te snd m2 Inr by (intro te_Cons) simp_all
      have 3: "(\<exists>pre c' p e. ?u = pre @ [CallSend c' p]
                   \<and> fst (api_send api c' p (replay api pre (mgr s))) = Inl e)
                \<longrightarrow> (\<exists>e. fst (sendLoop api (c # cs) idx s) = Inl e)"
      proof (intro impI, elim exE conjE)
        fix pre c' p e
        assume a: "?u = pre @ [CallSend c' p]"
          and b: "fst (api_send api c' p (replay api pre (mgr s))) = Inl e"
        show "\<exists>e. fst (sendLoop api (c # cs) idx s) = Inl e"
        proof (cases u)
          case Nil
          with a have "pre = [CallGetState c Open]" "c' = c" "p = ?msg" by (cases pre; simp)+
          with b snd Inr show ?thesis by simp
        next
          case (Cons y u')
          with a obtain pre' where
            p: "pre = CallGetState c Open # CallSend c ?msg # pre'" "u = pre' @ [CallSend c' p]"
            by (cases pre; cases "tl pre"; auto)
          with b snd m2 have "fst (api_send api c' p (replay api pre' (mgr ?s2))) = Inl e"
            by simp
          with p(2) d same show ?thesis by auto
        qed
      qed
      from 1 2 3 show ?thesis by blast
    qed
  qed
qed

section \<open>Waiting for the handshakes\<close>

text \<open>
  Claim C7, as amended. After opening its connections the driver waits by one call of
  \<^verbatim>\<open>sleep(4)\<close>, a fixed delay, and then enters the send phase whatever the states of the
  connections are: the manager at the end of the run is the manager after the first loop
  on which \<^verbatim>\<open>sleep(4)\<close> and then the calls of \<open>rest\<close> have been made, and the first of
  them reads the state of the first stored connection as it is after that wait. The send
  phase consists of reads of a state, each read that answered Open directly followed by
  a send on the same connection, and nothing else; every state read is the state the
  manager reports at that moment, and a send comes only directly after a read of the
  same connection that answered Open, so a connection that is not Open is skipped. The
  stored connections are read in their order, all of them, unless a send throws: a send
  that throws is the last call of the run, the run returns 1, and the connections read
  are the first of the stored ones. Otherwise the send phase is followed by the calls
  \<^verbatim>\<open>sleep(4)\<close>, \<^verbatim>\<open>sleep(6)\<close> and \<^verbatim>\<open>closeAllConnections\<close>. It holds for every manager
  interface.
\<close>

theorem driver_sleeps_then_sends:
  assumes cfg: "api_configureSecureEndpoint api ca_crt_path client_crt_path client_key_path m0
                  = (Inr u, m1)"
    and loop: "connectLoop api url messages 0 num_connections
                 (configured ca_crt_path client_crt_path client_key_path m1) = (Inr v, s1)"
  shows "\<exists>rest. calls (snd (runTestConnection api url num_connections messages ca_crt_path
                             client_crt_path client_key_path m0))
                  = calls s1 @ CallSleep 4 # rest
           \<and> mgr (snd (runTestConnection api url num_connections messages ca_crt_path
                          client_crt_path client_key_path m0))
               = replay api (CallSleep 4 # rest) (mgr s1)
           \<and> (\<forall>c cs. connections s1 = c # cs \<longrightarrow>
                 (\<exists>rest'. rest = CallGetState c (api_getState api c (api_sleep api 4 (mgr s1))) # rest'))
           \<and> (\<forall>pre c st post. rest = pre @ CallGetState c st # post \<longrightarrow>
                 st = api_getState api c (replay api (CallSleep 4 # pre) (mgr s1)))
           \<and> (\<forall>pre c p post. rest = pre @ CallSend c p # post \<longrightarrow>
                 (\<exists>pre'. pre = pre' @ [CallGetState c Open]))
           \<and> (\<forall>pre c post. rest = pre @ CallGetState c Open # post \<longrightarrow>
                 (\<exists>p post'. post = CallSend c p # post'))
           \<and> (reads_of rest = connections s1
              \<or> (fst (runTestConnection api url num_connections messages ca_crt_path
                         client_crt_path client_key_path m0) = Inr 1
                  \<and> (\<exists>cs'. connections s1 = reads_of rest @ cs')
                  \<and> (\<exists>e pre c p. rest = pre @ [CallSend c p]
                        \<and> fst (api_send api c p (replay api (CallSleep 4 # pre) (mgr s1)))
                            = Inl e)))
           \<and> (\<forall>pre c p post e. rest = pre @ CallSend c p # post
                 \<and> fst (api_send api c p (replay api (CallSleep 4 # pre) (mgr s1))) = Inl e
                 \<longrightarrow> post = []
                     \<and> fst (runTestConnection api url num_connections messages ca_crt_path
                               client_crt_path client_key_path m0) = Inr 1)
           \<and> (\<exists>w. send_phase w
                 \<and> (rest = w @ [CallSleep 4, CallSleep 6, CallCloseAll]
                    \<or> (rest = w
                        \<and> fst (runTestConnection api url num_connections messages ca_crt_path
                                  client_crt_path client_key_path m0) = Inr 1
                        \<and> (\<exists>e pre c p. rest = pre @ [CallSend c p]
                              \<and> fst (api_send api c p
                                       (replay api (CallSleep 4 # pre) (mgr s1))) = Inl e))))"
proof -
  let ?run = "runTestConnection api url num_connections messages ca_crt_path
                client_crt_path client_key_path m0"
  let ?s0 = "configured ca_crt_path client_crt_path client_key_path m1"
  let ?s2 = "sleep api 4 s1"
  from runTestConnection_calls[OF cfg loop] obtain w tl where
    w: "send_phase w" and tl: "tl = [] \<or> tl = [CallSleep 4, CallSleep 6, CallCloseAll]"
    and run: "calls (snd ?run) = calls s1 @ CallSleep 4 # w @ tl"
    and sl: "calls (snd (sendLoop api (connections s1) 0 ?s2)) = calls s1 @ CallSleep 4 # w"
    by blast
  have tlr: "reads_of tl = []" using tl by auto
  have s2: "mgr ?s2 = api_sleep api 4 (mgr s1)" "calls ?s2 = calls s1 @ [CallSleep 4]"
    by (simp_all add: sleep_def called_def)
  have first: "\<exists>rest'. w @ tl = CallGetState c (api_getState api c (api_sleep api 4 (mgr s1))) # rest'"
    if "connections s1 = c # cs" for c cs
  proof -
    from sendLoop_first[of api c cs 0 ?s2] obtain rest where
      "calls (snd (sendLoop api (c # cs) 0 ?s2))
         = calls ?s2 @ CallGetState c (api_getState api c (mgr ?s2)) # rest"
      by blast
    with sl that have "w = CallGetState c (api_getState api c (api_sleep api 4 (mgr s1))) # rest"
      by (simp add: sleep_def called_def)
    then show ?thesis by simp
  qed
  have "sends_follow_open_state (w @ tl)"
    using send_phase_sfos[OF w] tl by (intro sfos_append_other) auto
  then have sends: "\<forall>pre c p post. w @ tl = pre @ CallSend c p # post \<longrightarrow>
                 (\<exists>pre'. pre = pre' @ [CallGetState c Open])"
    unfolding sends_follow_open_state_def .
  have "open_reads_send (w @ tl)"
    using send_phase_ors[OF w] tlr by (rule ors_append)
  then have opens: "\<forall>pre c post. w @ tl = pre @ CallGetState c Open # post \<longrightarrow>
                 (\<exists>p post'. post = CallSend c p # post')"
    unfolding open_reads_send_def .
  from sendLoop_reads[of api "connections s1" 0 ?s2] obtain u' where
    u1: "calls (snd (sendLoop api (connections s1) 0 ?s2)) = calls ?s2 @ u'"
    and u2: "reads_current api (mgr ?s2) u'"
    and u3: "(fst (sendLoop api (connections s1) 0 ?s2) = Inr () \<and> reads_of u' = connections s1)
         \<or> (\<exists>e pre c p cs'. fst (sendLoop api (connections s1) 0 ?s2) = Inl e
               \<and> u' = pre @ [CallSend c p]
               \<and> fst (api_send api c p (replay api pre (mgr ?s2))) = Inl e
               \<and> connections s1 = reads_of u' @ cs')"
    by blast
  from u1 sl s2(2) have uw: "u' = w" by simp
  have "reads_current api (mgr ?s2) (w @ tl)"
    using u2 tlr unfolding uw by (rule rc_append)
  then have "reads_current api (mgr s1) (CallSleep 4 # w @ tl)"
    by (intro rc_Cons) (simp_all add: s2)
  then have reads: "\<forall>pre c st post. w @ tl = pre @ CallGetState c st # post \<longrightarrow>
                 st = api_getState api c (replay api (CallSleep 4 # pre) (mgr s1))"
    unfolding reads_current_def
  proof (intro allI impI)
    fix pre c st post
    assume a: "\<forall>pre c st post. CallSleep 4 # w @ tl = pre @ CallGetState c st # post \<longrightarrow>
                 st = api_getState api c (replay api pre (mgr s1))"
      and b: "w @ tl = pre @ CallGetState c st # post"
    from b have "CallSleep 4 # w @ tl = (CallSleep 4 # pre) @ CallGetState c st # post" by simp
    with a show "st = api_getState api c (replay api (CallSleep 4 # pre) (mgr s1))" by blast
  qed
  have base: "mgr ?s0 = replay api (calls ?s0) m0"
    "opens_after_registrations api url messages m0 (calls ?s0)"
    using cfg by (simp_all add: configured_def opens_after_registrations_def Cons_eq_append_conv)
  from connectLoop_replay[OF base, of 0 num_connections] loop
  have ms1: "mgr s1 = replay api (calls s1) m0" by simp
  from runTestConnection_replay[of api url num_connections messages ca_crt_path
         client_crt_path client_key_path m0]
  have "mgr (snd ?run) = replay api (calls (snd ?run)) m0" by simp
  with run ms1 have state: "mgr (snd ?run) = replay api (CallSleep 4 # w @ tl) (mgr s1)"
    by simp
  obtain r3 s3 where c3: "sendLoop api (connections s1) 0 ?s2 = (r3, s3)"
    by (cases "sendLoop api (connections s1) 0 ?s2") auto
  have all: "reads_of (w @ tl) = connections s1
              \<or> (fst ?run = Inr 1
                  \<and> (\<exists>cs'. connections s1 = reads_of (w @ tl) @ cs')
                  \<and> (\<exists>e pre c p. w @ tl = pre @ [CallSend c p]
                        \<and> fst (api_send api c p (replay api (CallSleep 4 # pre) (mgr s1)))
                            = Inl e))"
  proof (cases r3)
    case (Inr x)
    with u3 c3 uw have "reads_of w = connections s1" by auto
    with tlr show ?thesis by simp
  next
    case (Inl e)
    with cfg loop c3 have res: "?run = (Inr 1, s3)"
      by (simp add: runTestConnection_def)
    with run sl c3 have "tl = []" by simp
    moreover from u3 c3 Inl uw obtain pre c p cs' where
      "w = pre @ [CallSend c p]"
      "fst (api_send api c p (replay api pre (mgr ?s2))) = Inl e"
      "connections s1 = reads_of w @ cs'"
      by auto
    ultimately show ?thesis using res s2(1) by auto
  qed
  from sendLoop_throw[of api "connections s1" 0 ?s2] obtain u'' where
    v1: "calls (snd (sendLoop api (connections s1) 0 ?s2)) = calls ?s2 @ u''"
    and v2: "throw_ends api (mgr ?s2) u''"
    and v3: "(\<exists>pre c p e. u'' = pre @ [CallSend c p]
                \<and> fst (api_send api c p (replay api pre (mgr ?s2))) = Inl e)
             \<longrightarrow> (\<exists>e. fst (sendLoop api (connections s1) 0 ?s2) = Inl e)"
    by blast
  from v1 sl s2(2) have vw: "u'' = w" by simp
  have throws: "\<forall>pre c p post e. w @ tl = pre @ CallSend c p # post
                 \<and> fst (api_send api c p (replay api (CallSleep 4 # pre) (mgr s1))) = Inl e
                 \<longrightarrow> post = [] \<and> fst ?run = Inr 1"
  proof (intro allI impI, elim conjE)
    fix pre c p post e
    assume eq: "w @ tl = pre @ CallSend c p # post"
      and th: "fst (api_send api c p (replay api (CallSleep 4 # pre) (mgr s1))) = Inl e"
    have th': "fst (api_send api c p (replay api pre (mgr ?s2))) = Inl e"
      using th by (simp add: s2)
    from eq obtain x where "(w = pre @ x \<and> x @ tl = CallSend c p # post)
                      \<or> (w @ x = pre \<and> tl = x @ CallSend c p # post)"
      by (auto simp: append_eq_append_conv2)
    then obtain post' where pw: "w = pre @ CallSend c p # post'" and pp: "post = post' @ tl"
    proof
      assume a: "w = pre @ x \<and> x @ tl = CallSend c p # post"
      show ?thesis
      proof (cases x)
        case Nil
        with a have "CallSend c p \<in> set tl" by simp
        with tl show ?thesis by auto
      next
        case (Cons y x')
        with a have "w = pre @ CallSend c p # x'" "post = x' @ tl" by simp_all
        then show ?thesis by (rule that)
      qed
    next
      assume "w @ x = pre \<and> tl = x @ CallSend c p # post"
      then have "CallSend c p \<in> set tl" by simp
      with tl show ?thesis by auto
    qed
    from v2 pw th' have "post' = []" unfolding vw throw_ends_def by blast
    with pw have last: "w = pre @ [CallSend c p]" by simp
    with v3 th' vw obtain e' where "fst (sendLoop api (connections s1) 0 ?s2) = Inl e'"
      by blast
    with c3 have r3: "r3 = Inl e'" by simp
    with cfg loop c3 have res: "?run = (Inr 1, s3)"
      by (simp add: runTestConnection_def)
    with run sl c3 have "tl = []" by simp
    with pp \<open>post' = []\<close> res show "post = [] \<and> fst ?run = Inr 1" by simp
  qed
  have shape: "\<exists>w'. send_phase w'
                 \<and> (w @ tl = w' @ [CallSleep 4, CallSleep 6, CallCloseAll]
                    \<or> (w @ tl = w' \<and> fst ?run = Inr 1
                        \<and> (\<exists>e pre c p. w @ tl = pre @ [CallSend c p]
                              \<and> fst (api_send api c p
                                       (replay api (CallSleep 4 # pre) (mgr s1))) = Inl e)))"
  proof (cases r3)
    case (Inr x)
    obtain r4 m4 where
      ca: "api_closeAllConnections api (mgr (sleep api 6 (sleep api 4 s3))) = (r4, m4)"
      by (cases "api_closeAllConnections api (mgr (sleep api 6 (sleep api 4 s3)))") auto
    have "calls (snd ?run) = calls s3 @ [CallSleep 4, CallSleep 6, CallCloseAll]"
      using cfg loop c3 Inr ca
      by (cases r4) (simp_all add: runTestConnection_def Let_def sleep_def called_def)
    with run sl c3 have "tl = [CallSleep 4, CallSleep 6, CallCloseAll]" by simp
    with w show ?thesis by blast
  next
    case (Inl e)
    with cfg loop c3 have res: "?run = (Inr 1, s3)"
      by (simp add: runTestConnection_def)
    with run sl c3 have t0: "tl = []" by simp
    from u3 c3 Inl uw obtain pre c p where
      "w = pre @ [CallSend c p]"
      "fst (api_send api c p (replay api pre (mgr ?s2))) = Inl e"
      by auto
    then have "\<exists>e pre c p. w @ tl = pre @ [CallSend c p]
                 \<and> fst (api_send api c p (replay api (CallSleep 4 # pre) (mgr s1))) = Inl e"
      using t0 s2(1) by auto
    with w t0 res show ?thesis by auto
  qed
  from run state first reads sends opens all throws shape show ?thesis by blast
qed

text \<open>
  A run of two connections against the manager whose handshakes take 3 seconds: after
  the wait of 4 seconds both states are read as Open and both messages go out. Against
  the manager whose \<^verbatim>\<open>send\<close> throws, the first send ends the run with 1 and the second
  connection is not read.
\<close>

theorem driver_sleeps_then_sends_witness:
  "fst (api_configureSecureEndpoint (slow_api 3) ''ca'' ''cert'' ''key'' fresh_manager) = Inr ()
   \<and> fst (connectLoop (slow_api 3) ''wss://localhost:8090/cthun/'' [] 0 2
            (configured ''ca'' ''cert'' ''key''
               (snd (api_configureSecureEndpoint (slow_api 3) ''ca'' ''cert'' ''key''
                       fresh_manager)))) = Inr ()
   \<and> (\<exists>rest. calls (snd (runTestConnection (slow_api 3) ''wss://localhost:8090/cthun/'' 2 []
                              ''ca'' ''cert'' ''key'' fresh_manager))
               = calls (snd (connectLoop (slow_api 3) ''wss://localhost:8090/cthun/'' [] 0 2
                   (configured ''ca'' ''cert'' ''key''
                      (snd (api_configureSecureEndpoint (slow_api 3) ''ca'' ''cert'' ''key''
                              fresh_manager)))))
                 @ CallSleep 4 # rest
             \<and> (\<exists>rest'. rest = CallGetState 0 Open # rest')
             \<and> reads_of rest = [0, 1]
             \<and> mgr (snd (runTestConnection (slow_api 3) ''wss://localhost:8090/cthun/'' 2 []
                            ''ca'' ''cert'' ''key'' fresh_manager))
                 = replay (slow_api 3) (CallSleep 4 # rest) \<lparr>created = 2, elapsed = 0\<rparr>)
   \<and> mgr (snd (runTestConnection (slow_api 3) ''wss://localhost:8090/cthun/'' 2 []
                  ''ca'' ''cert'' ''key'' fresh_manager)) = \<lparr>created = 2, elapsed = 14\<rparr>
   \<and> calls (snd (runTestConnection (slow_api 3) ''wss://localhost:8090/cthun/'' 2 []
                   ''ca'' ''cert'' ''key'' fresh_manager))
       = [CallConfigure ''ca'' ''cert'' ''key'',
          CallCreate ''wss://localhost:8090/cthun/'', CallSetOnFail 0 OnFail_c,
          CallSetOnOpen 0 (OnOpen_c []), CallOpen 0,
          CallCreate ''wss://localhost:8090/cthun/'', CallSetOnFail 1 OnFail_c,
          CallSetOnOpen 1 (OnOpen_c []), CallOpen 1,
          CallSleep 4,
          CallGetState 0 Open, CallSend 0 ''### Message (SYNC) for connection 1'',
          CallGetState 1 Open, CallSend 1 ''### Message (SYNC) for connection 2'',
          CallSleep 4, CallSleep 6, CallCloseAll]
   \<and> fst (connectLoop unsendable_api ''wss://localhost:8090/cthun/'' [] 0 2
            (configured ''ca'' ''cert'' ''key'' fresh_manager)) = Inr ()
   \<and> connections (snd (connectLoop unsendable_api ''wss://localhost:8090/cthun/'' [] 0 2
                          (configured ''ca'' ''cert'' ''key'' fresh_manager))) = [0, 1]
   \<and> (\<exists>rest. calls (snd (runTestConnection unsendable_api ''wss://localhost:8090/cthun/'' 2 []
                              ''ca'' ''cert'' ''key'' fresh_manager))
               = calls (snd (connectLoop unsendable_api ''wss://localhost:8090/cthun/'' [] 0 2
                               (configured ''ca'' ''cert'' ''key'' fresh_manager)))
                 @ CallSleep 4 # rest
             \<and> rest = [CallGetState 0 Open, CallSend 0 ''### Message (SYNC) for connection 1'']
             \<and> reads_of rest = [0])
   \<and> fst (api_send unsendable_api 0 ''### Message (SYNC) for connection 1''
            (replay unsendable_api [CallSleep 4, CallGetState 0 Open]
               (mgr (snd (connectLoop unsendable_api ''wss://localhost:8090/cthun/'' [] 0 2
                            (configured ''ca'' ''cert'' ''key'' fresh_manager))))))
       = Inl (ConnectionError NotOpen)
   \<and> fst (runTestConnection unsendable_api ''wss://localhost:8090/cthun/'' 2 []
            ''ca'' ''cert'' ''key'' fresh_manager) = Inr 1"
proof -
  let ?api = "slow_api 3"
  let ?url = "''wss://localhost:8090/cthun/''"
  let ?cfg = "api_configureSecureEndpoint ?api ''ca'' ''cert'' ''key'' fresh_manager"
  let ?loop = "connectLoop ?api ?url [] 0 2 (configured ''ca'' ''cert'' ''key'' (snd ?cfg))"
  let ?run = "runTestConnection ?api ?url 2 [] ''ca'' ''cert'' ''key'' fresh_manager"
  have c: "fst ?cfg = Inr ()" by code_simp
  have l: "fst ?loop = Inr ()" by code_simp
  have k: "connections (snd ?loop) = [0, 1]" by code_simp
  have ms: "mgr (snd ?loop) = \<lparr>created = 2, elapsed = 0\<rparr>" by code_simp
  have g: "api_getState ?api 0 (api_sleep ?api 4 (mgr (snd ?loop))) = Open" by code_simp
  have t: "calls (snd ?run)
       = [CallConfigure ''ca'' ''cert'' ''key'',
          CallCreate ?url, CallSetOnFail 0 OnFail_c, CallSetOnOpen 0 (OnOpen_c []), CallOpen 0,
          CallCreate ?url, CallSetOnFail 1 OnFail_c, CallSetOnOpen 1 (OnOpen_c []), CallOpen 1,
          CallSleep 4,
          CallGetState 0 Open, CallSend 0 ''### Message (SYNC) for connection 1'',
          CallGetState 1 Open, CallSend 1 ''### Message (SYNC) for connection 2'',
          CallSleep 4, CallSleep 6, CallCloseAll]"
    by code_simp
  have kc: "calls (snd ?loop)
       = [CallConfigure ''ca'' ''cert'' ''key'',
          CallCreate ?url, CallSetOnFail 0 OnFail_c, CallSetOnOpen 0 (OnOpen_c []), CallOpen 0,
          CallCreate ?url, CallSetOnFail 1 OnFail_c, CallSetOnOpen 1 (OnOpen_c []), CallOpen 1]"
    by code_simp
  have cfg: "?cfg = (Inr (), snd ?cfg)" using c by (metis prod.collapse)
  have loop: "?loop = (Inr (), snd ?loop)" using l by (metis prod.collapse)
  from driver_sleeps_then_sends[OF cfg loop] obtain rest where
    r: "calls (snd ?run) = calls (snd ?loop) @ CallSleep 4 # rest"
    and st: "mgr (snd ?run) = replay ?api (CallSleep 4 # rest) (mgr (snd ?loop))"
    and f: "\<forall>c cs. connections (snd ?loop) = c # cs \<longrightarrow>
              (\<exists>rest'. rest = CallGetState c (api_getState ?api c (api_sleep ?api 4 (mgr (snd ?loop)))) # rest')"
    by (elim exE conjE) (rule that, assumption+)
  from r t kc have rest: "rest = [CallGetState 0 Open, CallSend 0 ''### Message (SYNC) for connection 1'',
          CallGetState 1 Open, CallSend 1 ''### Message (SYNC) for connection 2'',
          CallSleep 4, CallSleep 6, CallCloseAll]"
    by simp
  from f k g have first: "\<exists>rest'. rest = CallGetState 0 Open # rest'" by simp
  have rd: "reads_of rest = [0, 1]" unfolding rest by simp
  have fin: "mgr (snd ?run) = \<lparr>created = 2, elapsed = 14\<rparr>"
    unfolding st ms rest by (simp add: slow_api_def)
  have A: "\<exists>rest. calls (snd ?run) = calls (snd ?loop) @ CallSleep 4 # rest
             \<and> (\<exists>rest'. rest = CallGetState 0 Open # rest')
             \<and> reads_of rest = [0, 1]
             \<and> mgr (snd ?run) = replay ?api (CallSleep 4 # rest) \<lparr>created = 2, elapsed = 0\<rparr>"
    using r first rd st ms by auto
  let ?cfgb = "api_configureSecureEndpoint unsendable_api ''ca'' ''cert'' ''key'' fresh_manager"
  let ?loopb = "connectLoop unsendable_api ?url [] 0 2 (configured ''ca'' ''cert'' ''key'' fresh_manager)"
  let ?runb = "runTestConnection unsendable_api ?url 2 [] ''ca'' ''cert'' ''key'' fresh_manager"
  have cb: "?cfgb = (Inr (), fresh_manager)" by code_simp
  have lb: "fst ?loopb = Inr ()" by code_simp
  have kb: "connections (snd ?loopb) = [0, 1]" by code_simp
  have tb: "calls (snd ?runb)
       = [CallConfigure ''ca'' ''cert'' ''key'',
          CallCreate ?url, CallSetOnFail 0 OnFail_c, CallSetOnOpen 0 (OnOpen_c []), CallOpen 0,
          CallCreate ?url, CallSetOnFail 1 OnFail_c, CallSetOnOpen 1 (OnOpen_c []), CallOpen 1,
          CallSleep 4,
          CallGetState 0 Open, CallSend 0 ''### Message (SYNC) for connection 1'']"
    by code_simp
  have kcb: "calls (snd ?loopb)
       = [CallConfigure ''ca'' ''cert'' ''key'',
          CallCreate ?url, CallSetOnFail 0 OnFail_c, CallSetOnOpen 0 (OnOpen_c []), CallOpen 0,
          CallCreate ?url, CallSetOnFail 1 OnFail_c, CallSetOnOpen 1 (OnOpen_c []), CallOpen 1]"
    by code_simp
  have loopb: "?loopb = (Inr (), snd ?loopb)" using lb by (metis prod.collapse)
  from driver_sleeps_then_sends[OF cb loopb] obtain restb where
    rb: "calls (snd ?runb) = calls (snd ?loopb) @ CallSleep 4 # restb"
    and db: "reads_of restb = connections (snd ?loopb)
              \<or> (fst ?runb = Inr 1
                  \<and> (\<exists>cs'. connections (snd ?loopb) = reads_of restb @ cs')
                  \<and> (\<exists>e pre c p. restb = pre @ [CallSend c p]
                        \<and> fst (api_send unsendable_api c p
                                 (replay unsendable_api (CallSleep 4 # pre) (mgr (snd ?loopb))))
                            = Inl e))"
    by (elim exE conjE) (rule that, assumption+)
  from rb tb kcb have restb: "restb = [CallGetState 0 Open,
                                      CallSend 0 ''### Message (SYNC) for connection 1'']"
    by simp
  have rdb: "reads_of restb = [0]" unfolding restb by simp
  from db rdb kb have retb: "fst ?runb = Inr 1" by simp
  have B: "\<exists>rest. calls (snd ?runb) = calls (snd ?loopb) @ CallSleep 4 # rest
             \<and> rest = [CallGetState 0 Open, CallSend 0 ''### Message (SYNC) for connection 1'']
             \<and> reads_of rest = [0]"
    using rb restb rdb by blast
  have thb: "fst (api_send unsendable_api 0 ''### Message (SYNC) for connection 1''
                  (replay unsendable_api [CallSleep 4, CallGetState 0 Open] (mgr (snd ?loopb))))
               = Inl (ConnectionError NotOpen)"
    by (simp add: unsendable_api_def)
  show ?thesis
    using c l A fin t lb kb B thb retb by (intro conjI) assumption+
qed

text \<open>
  Claim C7 as stated fails: with one connection and a manager whose handshakes take 5
  seconds, the driver goes on after \<^verbatim>\<open>sleep(4)\<close>; the connection is still Connecting when
  the send phase reads its state, no message is sent on it, and the run ends with 0.
\<close>

theorem driver_does_not_await_handshakes:
  "fst (runTestConnection (slow_api 5) ''wss://localhost:8090/cthun/'' 1 []
          ''ca'' ''cert'' ''key'' fresh_manager) = Inr 0
   \<and> api_getState (slow_api 5) 0
        (mgr (sleep (slow_api 5) 4
           (snd (connectLoop (slow_api 5) ''wss://localhost:8090/cthun/'' [] 0 1
              (configured ''ca'' ''cert'' ''key'' fresh_manager))))) = Connecting
   \<and> calls (snd (runTestConnection (slow_api 5) ''wss://localhost:8090/cthun/'' 1 []
          ''ca'' ''cert'' ''key'' fresh_manager))
       = [CallConfigure ''ca'' ''cert'' ''key'', CallCreate ''wss://localhost:8090/cthun/'',
          CallSetOnFail 0 OnFail_c, CallSetOnOpen 0 (OnOpen_c []), CallOpen 0,
          CallSleep 4, CallGetState 0 Connecting, CallSleep 4, CallSleep 6, CallCloseAll]"
  by code_simp

section \<open>Callbacks are registered before the connection is opened\<close>

text \<open>Runs against the recording manager: every iteration opens one connection.\<close>

lemma connectOne_recording:
  "fst (connectOne recording_api url messages s) = Inr ()
   \<and> map handlers (opened (mgr (snd (connectOne recording_api url messages s))))
       = map handlers (opened (mgr s)) @ [(Some OnFail_c, Some (OnOpen_c messages))]"
  by (simp add: connectOne_def called_def recording_api_def handlers_def
        setOnFailCallback_def setOnOpenCallback_def nth_append)

lemma connectLoop_recording:
  "fst (connectLoop recording_api url messages i n s) = Inr ()
   \<and> map handlers (opened (mgr (snd (connectLoop recording_api url messages i n s))))
       = map handlers (opened (mgr s))
         @ replicate (nat (n - i)) (Some OnFail_c, Some (OnOpen_c messages))"
proof (induction "recording_api" url messages i n s rule: connectLoop.induct)
  case (1 url messages i n s)
  show ?case
  proof (cases "i < n")
    case False
    then show ?thesis
      by (simp add: connectLoop.simps[of recording_api url messages i n s])
  next
    case True
    obtain r s' where one: "connectOne recording_api url messages s = (r, s')"
      by (cases "connectOne recording_api url messages s") auto
    from connectOne_recording[of url messages s] one
    have r: "r = Inr ()"
      and s': "map handlers (opened (mgr s'))
                 = map handlers (opened (mgr s)) @ [(Some OnFail_c, Some (OnOpen_c messages))]"
      by simp_all
    from "1.hyps"[OF True _ _] one r
    have ih: "fst (connectLoop recording_api url messages (i + 1) n s') = Inr ()
       \<and> map handlers (opened (mgr (snd (connectLoop recording_api url messages (i + 1) n s'))))
           = map handlers (opened (mgr s'))
             @ replicate (nat (n - (i + 1))) (Some OnFail_c, Some (OnOpen_c messages))"
      by simp
    have "nat (n - i) = Suc (nat (n - (i + 1)))" using True by simp
    with ih s' one r True show ?thesis
      by (simp add: connectLoop.simps[of recording_api url messages i n s]
            replicate_app_Cons_same)
  qed
qed

lemma sendLoop_recording:
  "fst (sendLoop recording_api cs idx s) = Inr ()
   \<and> mgr (snd (sendLoop recording_api cs idx s)) = mgr s"
proof (induction cs arbitrary: idx s)
  case Nil
  show ?case by simp
next
  case (Cons c cs)
  let ?st = "api_getState recording_api c (mgr s)"
  let ?s1 = "called (CallGetState c ?st) (mgr s) s"
  let ?msg = "''### Message (SYNC) for connection '' @ to_string (idx + 1)"
  have snd: "api_send recording_api c ?msg (mgr ?s1) = (Inr (), mgr s)"
    by (simp add: recording_api_def called_def)
  show ?case
  proof (cases "?st = Open")
    case False
    with Cons.IH[of "idx + 1" ?s1] show ?thesis
      by (simp add: Let_def called_def)
  next
    case True
    with Cons.IH[of "idx + 1" "called (CallSend c ?msg) (mgr s) ?s1"] snd show ?thesis
      by (simp add: Let_def called_def)
  qed
qed

lemma runTestConnection_recording:
  "map handlers (opened (mgr (snd (runTestConnection recording_api url num_connections messages
                                     ca_crt_path client_crt_path client_key_path m0))))
     = map handlers (opened m0)
       @ replicate (nat num_connections) (Some OnFail_c, Some (OnOpen_c messages))"
proof -
  let ?s0 = "configured ca_crt_path client_crt_path client_key_path m0"
  have c1: "api_configureSecureEndpoint recording_api ca_crt_path client_crt_path
              client_key_path m0 = (Inr (), m0)"
    by (simp add: recording_api_def)
  obtain r2 s1 where c2: "connectLoop recording_api url messages 0 num_connections ?s0 = (r2, s1)"
    by (cases "connectLoop recording_api url messages 0 num_connections ?s0") auto
  from connectLoop_recording[of url messages 0 num_connections ?s0] c2
  have r2: "r2 = Inr ()"
    and s1: "map handlers (opened (mgr s1))
               = map handlers (opened m0)
                 @ replicate (nat num_connections) (Some OnFail_c, Some (OnOpen_c messages))"
    by (simp_all add: configured_def)
  let ?s2 = "sleep recording_api 4 s1"
  obtain r3 s3 where c3: "sendLoop recording_api (connections s1) 0 ?s2 = (r3, s3)"
    by (cases "sendLoop recording_api (connections s1) 0 ?s2") auto
  from sendLoop_recording[of "connections s1" 0 ?s2] c3
  have r3: "r3 = Inr ()" and s3: "mgr s3 = mgr s1"
    by (simp_all add: sleep_def called_def recording_api_def)
  have ca: "api_closeAllConnections recording_api (mgr (sleep recording_api 6
              (sleep recording_api 4 s3))) = (Inr (), mgr s1)"
    using s3 by (simp add: sleep_def called_def recording_api_def)
  have "mgr (snd (runTestConnection recording_api url num_connections messages
                    ca_crt_path client_crt_path client_key_path m0)) = mgr s1"
    using c1 c2 r2 c3 r3 ca by (simp add: runTestConnection_def Let_def called_def)
  with s1 show ?thesis by simp
qed

text \<open>
  Claim C8. In every run of the driver, for every manager interface, a call of \<^verbatim>\<open>open\<close>
  on a connection comes directly after the creation of that connection and the calls
  that register the driver's \<^verbatim>\<open>onFail\<close> closure and its \<^verbatim>\<open>onOpen\<close> closure on it, and
  \<^verbatim>\<open>open\<close> is made on the manager as the second registration left it: the manager at
  the end of the run is the result of that \<^verbatim>\<open>open\<close> followed by the later calls. The
  same holds for one iteration of the first loop in any state of the driver. Against the
  manager that records what it opens, every one of the \<open>num_connections\<close> objects opened
  by a run carries both closures at the moment of its \<^verbatim>\<open>open\<close>. On the specified
  connection, registering a handler replaces the handler of that kind registered before.
\<close>

theorem callbacks_registered_before_open:
  "(\<forall>pre c post.
       calls (snd (runTestConnection api url num_connections messages ca_crt_path
                     client_crt_path client_key_path m0)) = pre @ CallOpen c # post
       \<longrightarrow> CallSetOnFail c OnFail_c \<in> set pre \<and> CallSetOnOpen c (OnOpen_c messages) \<in> set pre
           \<and> (\<exists>pre' m1 m2 m3.
                 pre = pre' @ [CallCreate url, CallSetOnFail c OnFail_c,
                               CallSetOnOpen c (OnOpen_c messages)]
                 \<and> api_createConnection api url (replay api pre' m0) = (Inr c, m1)
                 \<and> api_setOnFailCallback api c OnFail_c m1 = (Inr (), m2)
                 \<and> api_setOnOpenCallback api c (OnOpen_c messages) m2 = (Inr (), m3)
                 \<and> mgr (snd (runTestConnection api url num_connections messages ca_crt_path
                                client_crt_path client_key_path m0))
                     = replay api post (snd (api_open api c m3))))
   \<and> (\<forall>c m1 m2 m3.
         api_createConnection api url (mgr s) = (Inr c, m1)
         \<and> api_setOnFailCallback api c OnFail_c m1 = (Inr (), m2)
         \<and> api_setOnOpenCallback api c (OnOpen_c messages) m2 = (Inr (), m3)
         \<longrightarrow> fst (connectOne api url messages s) = fst (api_open api c m3)
             \<and> mgr (snd (connectOne api url messages s)) = snd (api_open api c m3))
   \<and> map handlers
        (opened (mgr (snd (runTestConnection recording_api url num_connections messages
                             ca_crt_path client_crt_path client_key_path r0))))
       = map handlers (opened r0)
         @ replicate (nat num_connections) (Some OnFail_c, Some (OnOpen_c messages))
   \<and> onOpen (setOnOpenCallback cb2 (setOnOpenCallback cb1 conn)) = Some cb2
   \<and> onFail (setOnFailCallback cb2 (setOnFailCallback cb1 conn)) = Some cb2"
proof -
  let ?run = "runTestConnection api url num_connections messages ca_crt_path
                client_crt_path client_key_path m0"
  have 1: "\<forall>pre c post. calls (snd ?run) = pre @ CallOpen c # post
       \<longrightarrow> CallSetOnFail c OnFail_c \<in> set pre \<and> CallSetOnOpen c (OnOpen_c messages) \<in> set pre
           \<and> (\<exists>pre' m1 m2 m3.
                 pre = pre' @ [CallCreate url, CallSetOnFail c OnFail_c,
                               CallSetOnOpen c (OnOpen_c messages)]
                 \<and> api_createConnection api url (replay api pre' m0) = (Inr c, m1)
                 \<and> api_setOnFailCallback api c OnFail_c m1 = (Inr (), m2)
                 \<and> api_setOnOpenCallback api c (OnOpen_c messages) m2 = (Inr (), m3)
                 \<and> mgr (snd ?run) = replay api post (snd (api_open api c m3)))"
  proof (intro allI impI)
    fix pre c post
    assume eq: "calls (snd ?run) = pre @ CallOpen c # post"
    from runTestConnection_replay[of api url num_connections messages ca_crt_path
           client_crt_path client_key_path m0]
    have m: "mgr (snd ?run) = replay api (calls (snd ?run)) m0"
      and o: "opens_after_registrations api url messages m0 (calls (snd ?run))"
      by simp_all
    from o eq obtain pre' m1 m2 m3 where
      p: "pre = pre' @ [CallCreate url, CallSetOnFail c OnFail_c,
                        CallSetOnOpen c (OnOpen_c messages)]"
      and c1: "api_createConnection api url (replay api pre' m0) = (Inr c, m1)"
      and c2: "api_setOnFailCallback api c OnFail_c m1 = (Inr (), m2)"
      and c3: "api_setOnOpenCallback api c (OnOpen_c messages) m2 = (Inr (), m3)"
      and r: "replay api pre m0 = m3"
      unfolding opens_after_registrations_def by blast
    have "mgr (snd ?run) = replay api post (snd (api_open api c m3))"
      using m eq r by simp
    moreover have "CallSetOnFail c OnFail_c \<in> set pre
                   \<and> CallSetOnOpen c (OnOpen_c messages) \<in> set pre"
      using p by simp
    ultimately show "CallSetOnFail c OnFail_c \<in> set pre
           \<and> CallSetOnOpen c (OnOpen_c messages) \<in> set pre
           \<and> (\<exists>pre' m1 m2 m3.
                 pre = pre' @ [CallCreate url, CallSetOnFail c OnFail_c,
                               CallSetOnOpen c (OnOpen_c messages)]
                 \<and> api_createConnection api url (replay api pre' m0) = (Inr c, m1)
                 \<and> api_setOnFailCallback api c OnFail_c m1 = (Inr (), m2)
                 \<and> api_setOnOpenCallback api c (OnOpen_c messages) m2 = (Inr (), m3)
                 \<and> mgr (snd ?run) = replay api post (snd (api_open api c m3)))"
      using p c1 c2 c3 by blast
  qed
  have 2: "\<forall>c m1 m2 m3.
         api_createConnection api url (mgr s) = (Inr c, m1)
         \<and> api_setOnFailCallback api c OnFail_c m1 = (Inr (), m2)
         \<and> api_setOnOpenCallback api c (OnOpen_c messages) m2 = (Inr (), m3)
         \<longrightarrow> fst (connectOne api url messages s) = fst (api_open api c m3)
             \<and> mgr (snd (connectOne api url messages s)) = snd (api_open api c m3)"
  proof (intro allI impI, elim conjE)
    fix c m1 m2 m3
    assume c1: "api_createConnection api url (mgr s) = (Inr c, m1)"
      and c2: "api_setOnFailCallback api c OnFail_c m1 = (Inr (), m2)"
      and c3: "api_setOnOpenCallback api c (OnOpen_c messages) m2 = (Inr (), m3)"
    obtain r4 m4 where c4: "api_open api c m3 = (r4, m4)"
      by (cases "api_open api c m3") auto
    from c1 c2 c3 c4
    show "fst (connectOne api url messages s) = fst (api_open api c m3)
          \<and> mgr (snd (connectOne api url messages s)) = snd (api_open api c m3)"
      by (cases r4) (simp_all add: connectOne_def called_def)
  qed
  have 3: "map handlers
        (opened (mgr (snd (runTestConnection recording_api url num_connections messages
                             ca_crt_path client_crt_path client_key_path r0))))
       = map handlers (opened r0)
         @ replicate (nat num_connections) (Some OnFail_c, Some (OnOpen_c messages))"
    by (rule runTestConnection_recording)
  have 4: "onOpen (setOnOpenCallback cb2 (setOnOpenCallback cb1 conn)) = Some cb2
           \<and> onFail (setOnFailCallback cb2 (setOnFailCallback cb1 conn)) = Some cb2"
    by (simp add: setOnOpenCallback_def setOnFailCallback_def)
  from 1 2 3 4 show ?thesis by blast
qed

text \<open>
  A run of one connection against the recording manager, split at its only \<^verbatim>\<open>open\<close>,
  and two registrations in a row on a created connection.
\<close>

theorem callbacks_registered_before_open_witness:
  "calls (snd (runTestConnection recording_api ''wss://localhost:8090/cthun/'' 1
                 [''hello''] ''ca'' ''cert'' ''key'' empty_recording))
     = [CallConfigure ''ca'' ''cert'' ''key'', CallCreate ''wss://localhost:8090/cthun/'',
        CallSetOnFail 0 OnFail_c, CallSetOnOpen 0 (OnOpen_c [''hello''])]
       @ CallOpen 0
       # [CallSleep 4, CallGetState 0 Connecting, CallSleep 4, CallSleep 6, CallCloseAll]
   \<and> CallSetOnFail 0 OnFail_c
       \<in> set [CallConfigure ''ca'' ''cert'' ''key'', CallCreate ''wss://localhost:8090/cthun/'',
               CallSetOnFail 0 OnFail_c, CallSetOnOpen 0 (OnOpen_c [''hello''])]
   \<and> CallSetOnOpen 0 (OnOpen_c [''hello''])
       \<in> set [CallConfigure ''ca'' ''cert'' ''key'', CallCreate ''wss://localhost:8090/cthun/'',
               CallSetOnFail 0 OnFail_c, CallSetOnOpen 0 (OnOpen_c [''hello''])]
   \<and> (\<exists>m3. replay recording_api
               [CallConfigure ''ca'' ''cert'' ''key'', CallCreate ''wss://localhost:8090/cthun/'',
                CallSetOnFail 0 OnFail_c, CallSetOnOpen 0 (OnOpen_c [''hello''])]
               empty_recording = m3
           \<and> map handlers (store m3) = [(Some OnFail_c, Some (OnOpen_c [''hello'']))]
           \<and> mgr (snd (runTestConnection recording_api ''wss://localhost:8090/cthun/'' 1
                          [''hello''] ''ca'' ''cert'' ''key'' empty_recording))
               = replay recording_api
                   [CallSleep 4, CallGetState 0 Connecting, CallSleep 4, CallSleep 6, CallCloseAll]
                   (snd (api_open recording_api 0 m3))
           \<and> fst (connectOne recording_api ''wss://localhost:8090/cthun/'' [''hello'']
                     (configured ''ca'' ''cert'' ''key'' empty_recording))
               = fst (api_open recording_api 0 m3)
           \<and> mgr (snd (connectOne recording_api ''wss://localhost:8090/cthun/'' [''hello'']
                          (configured ''ca'' ''cert'' ''key'' empty_recording)))
               = snd (api_open recording_api 0 m3))
   \<and> map handlers
        (opened (mgr (snd (runTestConnection recording_api ''wss://localhost:8090/cthun/'' 1
                             [''hello''] ''ca'' ''cert'' ''key'' empty_recording))))
       = [(Some OnFail_c, Some (OnOpen_c [''hello'']))]
   \<and> onOpen (setOnOpenCallback (OnOpen_c [''second''])
               (setOnOpenCallback (OnOpen_c [''first'']) created_connection))
       = Some (OnOpen_c [''second''])
   \<and> onFail (setOnFailCallback (OnOpen_c [''second''])
               (setOnFailCallback (OnOpen_c [''first'']) created_connection))
       = Some (OnOpen_c [''second''])"
proof -
  let ?url = "''wss://localhost:8090/cthun/''"
  let ?run = "runTestConnection recording_api ?url 1 [''hello''] ''ca'' ''cert'' ''key''
                empty_recording"
  let ?pre = "[CallConfigure ''ca'' ''cert'' ''key'', CallCreate ?url,
               CallSetOnFail 0 OnFail_c, CallSetOnOpen 0 (OnOpen_c [''hello''])]"
  let ?post = "[CallSleep 4, CallGetState 0 Connecting, CallSleep 4, CallSleep 6, CallCloseAll]"
  have t: "calls (snd ?run) = ?pre @ CallOpen 0 # ?post"
    by code_simp
  have h: "map handlers (store (replay recording_api ?pre empty_recording))
             = [(Some OnFail_c, Some (OnOpen_c [''hello'']))]"
    by code_simp
  note inst = callbacks_registered_before_open[of recording_api ?url 1 "[''hello'']"
               "''ca''" "''cert''" "''key''" empty_recording
               "configured ''ca'' ''cert'' ''key'' empty_recording" empty_recording
               "OnOpen_c [''second'']" "OnOpen_c [''first'']" created_connection]
  from inst[THEN conjunct1, rule_format, OF t] obtain pre' m1 m2 m3 where
    p: "?pre = pre' @ [CallCreate ?url, CallSetOnFail 0 OnFail_c,
                       CallSetOnOpen 0 (OnOpen_c [''hello''])]"
    and c1: "api_createConnection recording_api ?url (replay recording_api pre' empty_recording)
               = (Inr 0, m1)"
    and c2: "api_setOnFailCallback recording_api 0 OnFail_c m1 = (Inr (), m2)"
    and c3: "api_setOnOpenCallback recording_api 0 (OnOpen_c [''hello'']) m2 = (Inr (), m3)"
    and f: "mgr (snd ?run) = replay recording_api ?post (snd (api_open recording_api 0 m3))"
    by blast
  from p have p': "pre' = [CallConfigure ''ca'' ''cert'' ''key'']" by simp
  have m3: "replay recording_api ?pre empty_recording = m3"
    using p' c1 c2 c3 by simp
  have c1': "api_createConnection recording_api ?url
               (mgr (configured ''ca'' ''cert'' ''key'' empty_recording)) = (Inr 0, m1)"
  proof -
    have "replay recording_api pre' empty_recording
            = mgr (configured ''ca'' ''cert'' ''key'' empty_recording)"
      using p' by (simp add: configured_def recording_api_def)
    with c1 show ?thesis by simp
  qed
  from inst[THEN conjunct2, THEN conjunct1, rule_format, of 0 m1 m2 m3] c1' c2 c3
  have one: "fst (connectOne recording_api ?url [''hello'']
                    (configured ''ca'' ''cert'' ''key'' empty_recording))
               = fst (api_open recording_api 0 m3)
             \<and> mgr (snd (connectOne recording_api ?url [''hello'']
                            (configured ''ca'' ''cert'' ''key'' empty_recording)))
                 = snd (api_open recording_api 0 m3)"
    by blast
  from inst[THEN conjunct2, THEN conjunct2]
  have o: "map handlers (opened (mgr (snd ?run))) = [(Some OnFail_c, Some (OnOpen_c [''hello'']))]"
    "onOpen (setOnOpenCallback (OnOpen_c [''second''])
               (setOnOpenCallback (OnOpen_c [''first'']) created_connection))
       = Some (OnOpen_c [''second''])"
    "onFail (setOnFailCallback (OnOpen_c [''second''])
               (setOnFailCallback (OnOpen_c [''first'']) created_connection))
       = Some (OnOpen_c [''second''])"
    by (simp_all add: empty_recording_def)
  from t h m3 f one o show ?thesis by simp
qed

section \<open>The \<^verbatim>\<open>onOpen\<close> callback\<close>

text \<open>
  The loop of the closure: the frames handed over are the first messages of the list,
  in its order, and the client is left as those calls of \<^verbatim>\<open>send\<close> leave it.
\<close>

lemma client_after_Nil [simp]: "client_after client_send hdl cl [] = cl"
  by (simp add: client_after_def)

lemma client_after_Cons [simp]:
  "client_after client_send hdl cl (msg # messages)
     = client_after client_send hdl (snd (client_send cl hdl msg Text)) messages"
  by (simp add: client_after_def)









section \<open>Sending on a connection that is not open\<close>

text \<open>
  Claim C1. On the specified manager, \<^verbatim>\<open>send\<close> on a connection whose state is not Open
  (Connecting, Failed or Closed) fails with \<open>ConnectionError NotOpen\<close> and leaves the
  manager as it was: nothing is handed to the transport engine. The check is part of
  \<^verbatim>\<open>send\<close> itself, so it is made on every call, whatever the caller checked before.
\<close>

theorem send_requires_open:
  assumes "objects m c = Some conn" and "state conn \<noteq> Open"
  shows "send c payload m = (Inl (ConnectionError NotOpen), m)
         \<and> requests (transport (snd (send c payload m))) = requests (transport m)"
  using assms by (simp add: send_def)

text \<open>A send on the connection whose handshake was refused.\<close>

theorem send_requires_open_witness:
  "map_option state (objects refused_manager 0) = Some Failed
   \<and> send 0 ''hello'' refused_manager = (Inl (ConnectionError NotOpen), refused_manager)
   \<and> requests (transport (snd (send 0 ''hello'' refused_manager))) = []"
proof -
  let ?conn = "\<lparr>conn_id = 0, targetUrl = ''wss://localhost:8090/cthun/'', state = Failed,
                errorReason = Some ''connection refused'', transportHandle = Some 0,
                onOpen = Some (OnOpen_c []), onFail = Some OnFail_c\<rparr>"
  have o: "objects refused_manager 0 = Some ?conn"
    by (simp add: refused_manager_def)
  have s: "state ?conn \<noteq> Open" by simp
  have r: "requests (transport refused_manager) = []" by (simp add: refused_manager_def)
  from send_requires_open[OF o s, of "''hello''"] o r show ?thesis
    by simp
qed

section \<open>Closing all connections\<close>

text \<open>
  Claim C6. On the specified manager, \<^verbatim>\<open>closeAllConnections\<close> returns without an error
  from every state and leaves the registry empty; on an empty registry it changes
  nothing, so no request reaches the transport engine; and a second call right after the
  first returns without an error and changes nothing.
\<close>

theorem closeAllConnections_idempotent:
  "fst (closeAllConnections m) = Inr ()
   \<and> registry (snd (closeAllConnections m)) = []
   \<and> (registry m = [] \<longrightarrow>
         closeAllConnections m = (Inr (), m)
         \<and> requests (transport (snd (closeAllConnections m))) = requests (transport m))
   \<and> closeAllConnections (snd (closeAllConnections m)) = (Inr (), snd (closeAllConnections m))"
  by (simp add: closeAllConnections_def)

text \<open>
  The call on a manager without connections, and two calls in a row on a manager with
  two open connections.
\<close>

theorem closeAllConnections_idempotent_witness:
  "registry empty_manager = []
   \<and> closeAllConnections empty_manager = (Inr (), empty_manager)
   \<and> requests (transport (snd (closeAllConnections empty_manager))) = []
   \<and> registry two_open_manager = [0, 1]
   \<and> fst (closeAllConnections two_open_manager) = Inr ()
   \<and> registry (snd (closeAllConnections two_open_manager)) = []
   \<and> map_option state (objects (snd (closeAllConnections two_open_manager)) 0) = Some Closed
   \<and> map_option state (objects (snd (closeAllConnections two_open_manager)) 1) = Some Closed
   \<and> requests (transport (snd (closeAllConnections two_open_manager)))
       = [CloseHandshake 0, CloseHandshake 1]
   \<and> closeAllConnections (snd (closeAllConnections two_open_manager))
       = (Inr (), snd (closeAllConnections two_open_manager))"
proof -
  have r0: "registry empty_manager = []" by (simp add: empty_manager_def)
  have e: "requests (transport empty_manager) = []" by (simp add: empty_manager_def)
  have r2: "registry two_open_manager = [0, 1]" by (simp add: two_open_manager_def)
  have g0: "map_option state (objects (snd (closeAllConnections two_open_manager)) 0) = Some Closed"
    by code_simp
  have g1: "map_option state (objects (snd (closeAllConnections two_open_manager)) 1) = Some Closed"
    by code_simp
  have q: "requests (transport (snd (closeAllConnections two_open_manager)))
             = [CloseHandshake 0, CloseHandshake 1]"
    by code_simp
  from closeAllConnections_idempotent[of empty_manager]
       closeAllConnections_idempotent[of two_open_manager] r0 e r2 g0 g1 q
  show ?thesis by simp
qed

end
